theory Spec2Isabelle
  imports Main "HOL-Library.Sublist"
begin

section \<open>Bytes, sizes and cursors\<close>

text \<open>
  The document is an immutable region of memory, \<open>buf\<close>; an address is an offset into it.
  A cursor is the pair (len, ptr) of \<open>struct aws_byte_cursor\<close>. Callers hand in cursors
  that lie inside \<open>buf\<close> (\<open>cursor_in_bounds\<close>); the model marks as
  \<open>UNDEFINED_BEHAVIOUR\<close> the reads that the parser itself can push outside the buffer.

  What the model leaves out: the allocator (growing the callback stack is taken to succeed),
  and the parser's two scratch arrays as storage (a node carries its attributes as a value;
  only their capacities matter here).
\<close>

record aws_byte_cursor =
  len :: nat
  ptr :: nat

text \<open>The all-zero cursor left by \<open>AWS_ZERO_STRUCT\<close> / \<open>AWS_ZERO_ARRAY\<close>: no bytes.\<close>

definition ZERO_CURSOR :: aws_byte_cursor where
  "ZERO_CURSOR = \<lparr>len = 0, ptr = 0\<rparr>"

text \<open>\<open>size_t\<close> is 64 bits wide; a pointer difference stored in a \<open>size_t\<close> wraps around.\<close>

definition SIZE_MAX :: nat where
  "SIZE_MAX = 2 ^ 64 - 1"

definition to_size_t :: "int \<Rightarrow> nat" where
  "to_size_t i = nat (i mod (int SIZE_MAX + 1))"

definition cursor_in_bounds :: "string \<Rightarrow> aws_byte_cursor \<Rightarrow> bool" where
  "cursor_in_bounds buf c = (ptr c + len c \<le> length buf)"

definition cursor_bytes :: "string \<Rightarrow> aws_byte_cursor \<Rightarrow> string" where
  "cursor_bytes buf c = take (len c) (drop (ptr c) buf)"

definition read_byte :: "string \<Rightarrow> nat \<Rightarrow> char option" where
  "read_byte buf a = (if a < length buf then Some (buf ! a) else None)"

datatype aws_error =
    AWS_ERROR_MALFORMED_INPUT_STRING
  | AWS_ERROR_INVALID_INDEX
  | AWS_ERROR_STRING_MATCH_NOT_FOUND
  | AWS_ERROR_SHORT_BUFFER
  | UNDEFINED_BEHAVIOUR

subsection \<open>The byte-cursor helpers of aws-c-common\<close>

text \<open>
  These helpers belong to the aws-c-common library, which the parser only calls. They are
  modelled after that library's documented behaviour.
\<close>

fun index_of :: "char \<Rightarrow> string \<Rightarrow> nat option" where
  "index_of c [] = None"
| "index_of c (x # xs) = (if x = c then Some 0 else map_option Suc (index_of c xs))"

text \<open>\<open>memchr(p, c, n)\<close>: the address of the first \<open>c\<close> among the \<open>n\<close> bytes at \<open>p\<close>, or NULL.\<close>

definition memchr :: "string \<Rightarrow> nat \<Rightarrow> char \<Rightarrow> nat \<Rightarrow> nat option" where
  "memchr buf p c n = map_option (\<lambda>i. p + i) (index_of c (take n (drop p buf)))"

text \<open>
  \<open>aws_byte_cursor_advance\<close>: moves the cursor forward by \<open>n\<close> bytes; when \<open>n\<close> exceeds the
  cursor's length, or either size exceeds \<open>SIZE_MAX >> 1\<close>, the cursor is left as it is.
  (The returned slice is not used by the parser.)
\<close>

definition aws_byte_cursor_advance :: "aws_byte_cursor \<Rightarrow> nat \<Rightarrow> aws_byte_cursor" where
  "aws_byte_cursor_advance cursor n =
     (if len cursor > SIZE_MAX div 2 \<or> n > SIZE_MAX div 2 \<or> n > len cursor then cursor
      else \<lparr>len = len cursor - n, ptr = ptr cursor + n\<rparr>)"

text \<open>
  The pieces of a byte sequence between occurrences of \<open>c\<close>, as cursors: \<open>start\<close> is the
  address of the piece being read and \<open>n\<close> the number of its bytes read so far. An input that
  begins or ends with \<open>c\<close>, or has two adjacent \<open>c\<close>, yields an empty piece there.
\<close>

fun split_cursors :: "char \<Rightarrow> string \<Rightarrow> nat \<Rightarrow> nat \<Rightarrow> aws_byte_cursor list" where
  "split_cursors c [] start n = [\<lparr>len = n, ptr = start\<rparr>]"
| "split_cursors c (x # xs) start n =
     (if x = c then \<lparr>len = n, ptr = start\<rparr> # split_cursors c xs (start + n + 1) 0
      else split_cursors c xs start (n + 1))"

text \<open>
  \<open>aws_byte_cursor_split_on_char\<close> into a static array list of capacity \<open>cap\<close>: each piece
  is pushed as soon as it is found, and the push that does not fit fails the call. An input
  without the delimiter is one piece, and the call succeeds. A cursor that runs past the end
  of the buffer is read out of bounds, unless more than \<open>cap\<close> pieces are delimited before the
  end of the buffer is reached.
\<close>

definition aws_byte_cursor_split_on_char ::
  "string \<Rightarrow> aws_byte_cursor \<Rightarrow> char \<Rightarrow> nat \<Rightarrow> aws_error + aws_byte_cursor list" where
  "aws_byte_cursor_split_on_char buf input_str split_on cap =
     (if cursor_in_bounds buf input_str then
        (let output = split_cursors split_on (cursor_bytes buf input_str) (ptr input_str) 0
         in if length output > cap then Inl AWS_ERROR_INVALID_INDEX else Inr output)
      else if length (filter (\<lambda>x. x = split_on) (drop (ptr input_str) buf)) > cap
        then Inl AWS_ERROR_INVALID_INDEX
      else Inl UNDEFINED_BEHAVIOUR)"

text \<open>\<open>aws_byte_cursor_trim_pred\<close>: drops the leading, then the trailing bytes that satisfy
  the predicate.\<close>

fun left_trim :: "(char \<Rightarrow> bool) \<Rightarrow> string \<Rightarrow> nat" where
  "left_trim predicate [] = 0"
| "left_trim predicate (x # xs) = (if predicate x then Suc (left_trim predicate xs) else 0)"

definition aws_byte_cursor_left_trim_pred ::
  "string \<Rightarrow> aws_byte_cursor \<Rightarrow> (char \<Rightarrow> bool) \<Rightarrow> aws_byte_cursor" where
  "aws_byte_cursor_left_trim_pred buf source predicate =
     (let k = left_trim predicate (cursor_bytes buf source)
      in \<lparr>len = len source - k, ptr = ptr source + k\<rparr>)"

definition aws_byte_cursor_right_trim_pred ::
  "string \<Rightarrow> aws_byte_cursor \<Rightarrow> (char \<Rightarrow> bool) \<Rightarrow> aws_byte_cursor" where
  "aws_byte_cursor_right_trim_pred buf source predicate =
     (let k = left_trim predicate (rev (cursor_bytes buf source))
      in \<lparr>len = len source - k, ptr = ptr source\<rparr>)"

definition aws_byte_cursor_trim_pred ::
  "string \<Rightarrow> aws_byte_cursor \<Rightarrow> (char \<Rightarrow> bool) \<Rightarrow> aws_byte_cursor" where
  "aws_byte_cursor_trim_pred buf source predicate =
     aws_byte_cursor_right_trim_pred buf
       (aws_byte_cursor_left_trim_pred buf source predicate) predicate"

text \<open>
  \<open>aws_byte_cursor_find_exact\<close>: the first occurrence of \<open>to_find\<close> in the input, scanning
  forward; the result cursor starts at the match and runs to the end of the input.
\<close>

fun first_match :: "string \<Rightarrow> string \<Rightarrow> nat option" where
  "first_match to_find [] = None"
| "first_match to_find (x # xs) =
     (if take (length to_find) (x # xs) = to_find then Some 0
      else map_option Suc (first_match to_find xs))"

definition aws_byte_cursor_find_exact ::
  "string \<Rightarrow> aws_byte_cursor \<Rightarrow> string \<Rightarrow> aws_error + aws_byte_cursor" where
  "aws_byte_cursor_find_exact buf input_str to_find =
     (if length to_find > len input_str then Inl AWS_ERROR_STRING_MATCH_NOT_FOUND
      else if length to_find < 1 then Inl AWS_ERROR_SHORT_BUFFER
      else (case first_match to_find (cursor_bytes buf input_str) of
              None \<Rightarrow> Inl AWS_ERROR_STRING_MATCH_NOT_FOUND
            | Some i \<Rightarrow> Inr \<lparr>len = len input_str - i, ptr = ptr input_str + i\<rparr>))"

text \<open>\<open>aws_array_list_push_back\<close> on a static list of capacity \<open>cap\<close>; the parser ignores
  its failure, which leaves the list as it is.\<close>

definition array_list_push_back :: "nat \<Rightarrow> 'a list \<Rightarrow> 'a \<Rightarrow> 'a list" where
  "array_list_push_back cap xs x = (if length xs < cap then xs @ [x] else xs)"

section \<open>The parser's data\<close>

record aws_xml_attribute =
  attr_name :: aws_byte_cursor
  attr_value :: aws_byte_cursor

text \<open>A node, as the handler receives it. The attribute list is held by value: it is the
  content of \<open>parser->attributes\<close> when the node has just been decoded. In the code the node's
  list is a view of that array of the parser, which the next decode zeroes and refills, so
  the model says nothing of the attributes a handler reads from its node after a nested
  decode.\<close>

record aws_xml_node =
  name :: aws_byte_cursor
  attributes :: "aws_xml_attribute list"
  doc_at_body :: aws_byte_cursor

text \<open>A callback is a function pointer; \<open>user_data\<close> is the opaque pointer passed back to it.\<close>

record cb_stack_data =
  cb :: nat
  user_data :: nat

record aws_xml_parser =
  doc :: aws_byte_cursor
  cb_stack :: "cb_stack_data list"

text \<open>
  \<open>aws_xml_parser_on_node_encountered_fn\<close>: a handler receives the parser, the node and its
  user data; it may change the parser (through the operations below) and the memory \<open>'w\<close>
  its user data points to, and returns a boolean. \<open>None\<close>: the handler does not return.
  Function pointers are resolved by a table of handlers.
\<close>

type_synonym 'w on_node_encountered_fn =
  "aws_xml_parser \<Rightarrow> aws_xml_node \<Rightarrow> nat \<Rightarrow> 'w \<Rightarrow> (bool \<times> aws_xml_parser \<times> 'w) option"

type_synonym 'w fn_table = "nat \<Rightarrow> 'w on_node_encountered_fn"

text \<open>Modelled from the spec: the header that declares the parser's scratch arrays is not
  part of the sources; the spec gives the declaration splitter room for 10 tokens.\<close>

definition split_scratch_size :: nat where
  "split_scratch_size = 10"

text \<open>Modelled from the spec: the header that declares the parser's scratch arrays is not
  part of the sources; the spec gives the attribute array room for 10 attributes.\<close>

definition attributes_size :: nat where
  "attributes_size = 10"

definition aws_xml_parser_init :: "aws_byte_cursor \<Rightarrow> aws_xml_parser" where
  "aws_xml_parser_init d = \<lparr>doc = d, cb_stack = []\<rparr>"

section \<open>Declaration loader\<close>

definition s_trim_quotes_fn :: "char \<Rightarrow> bool" where
  "s_trim_quotes_fn v = (v = CHR 0x22)"

definition cursor_at :: "aws_byte_cursor list \<Rightarrow> nat \<Rightarrow> aws_byte_cursor" where
  "cursor_at xs i = (if i < length xs then xs ! i else ZERO_CURSOR)"

text \<open>The loop over the tokens after the name (\<open>for (i = 1; i < splits.length; ++i)\<close>).\<close>

fun s_load_attributes ::
  "string \<Rightarrow> aws_byte_cursor list \<Rightarrow> aws_xml_attribute list \<Rightarrow> aws_xml_attribute list" where
  "s_load_attributes buf [] attrs = attrs"
| "s_load_attributes buf (attribute_pair # rest) attrs =
     (case aws_byte_cursor_split_on_char buf attribute_pair CHR ''='' 2 of
        Inr att_val_pair \<Rightarrow>
          s_load_attributes buf rest
            (array_list_push_back attributes_size attrs
               \<lparr>attr_name = cursor_at att_val_pair 0,
                attr_value = aws_byte_cursor_trim_pred buf (cursor_at att_val_pair 1) s_trim_quotes_fn\<rparr>)
      | Inl e \<Rightarrow> s_load_attributes buf rest attrs)"

definition s_load_node_decl ::
  "string \<Rightarrow> aws_byte_cursor \<Rightarrow> aws_xml_node \<Rightarrow> aws_error + aws_xml_node" where
  "s_load_node_decl buf decl_body node =
     (case aws_byte_cursor_split_on_char buf decl_body CHR '' '' split_scratch_size of
        Inl e \<Rightarrow>
          Inl (if e = UNDEFINED_BEHAVIOUR then UNDEFINED_BEHAVIOUR
               else AWS_ERROR_MALFORMED_INPUT_STRING)
      | Inr splits \<Rightarrow>
          if length splits < 1 then Inl AWS_ERROR_MALFORMED_INPUT_STRING
          else if length splits > 1
            then Inr (node\<lparr>name := cursor_at splits 0,
                           attributes := s_load_attributes buf (tl splits) []\<rparr>)
          else Inr (node\<lparr>name := cursor_at splits 0\<rparr>))"

section \<open>Closing-tag matcher\<close>

text \<open>\<open>aws_byte_buf_append\<close> to a buffer of fixed capacity: bytes that do not fit are not
  copied, and the parser ignores that failure.\<close>

definition aws_byte_buf_append :: "nat \<Rightarrow> string \<Rightarrow> string \<Rightarrow> string" where
  "aws_byte_buf_append capacity to from =
     (if capacity - length to < length from then to else to @ from)"

definition s_advance_to_closing_tag ::
  "string \<Rightarrow> aws_xml_parser \<Rightarrow> aws_xml_node \<Rightarrow> (aws_error + aws_byte_cursor) \<times> aws_xml_parser" where
  "s_advance_to_closing_tag buf parser node =
     (let closing_name_len = to_size_t (int (len (name node)) + 3) in
      if closing_name_len > len (doc_at_body node)
        then (Inl AWS_ERROR_MALFORMED_INPUT_STRING, parser)
      else if 259 < closing_name_len
        then (Inl AWS_ERROR_MALFORMED_INPUT_STRING, parser)
      else
        (let cmp_buf = aws_byte_buf_append 259
                         (aws_byte_buf_append 259 (aws_byte_buf_append 259 [] ''</'')
                            (cursor_bytes buf (name node))) ''>''
         in case aws_byte_cursor_find_exact buf (doc_at_body node) cmp_buf of
           Inl e \<Rightarrow> (Inl AWS_ERROR_MALFORMED_INPUT_STRING, parser)
         | Inr find_result \<Rightarrow>
             (let n = to_size_t (int (ptr find_result) - int (ptr (doc_at_body node)))
              in (Inr \<lparr>len = n, ptr = ptr (doc_at_body node)\<rparr>,
                  parser\<lparr>doc := aws_byte_cursor_advance (doc parser)
                                   (to_size_t (int n + int (length cmp_buf)))\<rparr>))))"

definition aws_xml_node_as_body ::
  "string \<Rightarrow> aws_xml_parser \<Rightarrow> aws_xml_node \<Rightarrow> (aws_error + aws_byte_cursor) \<times> aws_xml_parser" where
  "aws_xml_node_as_body buf parser node = s_advance_to_closing_tag buf parser node"

section \<open>Sibling walk, traverse and parse\<close>

text \<open>
  Every operation returns its status (\<open>Inr ()\<close> is \<open>AWS_OP_SUCCESS\<close>), the parser as the call
  leaves it, also on failure, and the handlers' memory.
\<close>

definition s_node_next_sibling ::
  "'w fn_table \<Rightarrow> string \<Rightarrow> aws_xml_parser \<Rightarrow> 'w \<Rightarrow> ((aws_error + unit) \<times> aws_xml_parser \<times> 'w) option" where
  "s_node_next_sibling fns buf parser w =
     (case memchr buf (ptr (doc parser)) CHR ''<'' (len (doc parser)) of
        None \<Rightarrow> Some (Inr (), parser, w)
      | Some next_location \<Rightarrow>
          (let parser1 = parser\<lparr>doc := aws_byte_cursor_advance (doc parser)
                                   (to_size_t (int next_location - int (ptr (doc parser))))\<rparr>
           in case memchr buf (ptr (doc parser1)) CHR ''>'' (len (doc parser1)) of
                None \<Rightarrow> Some (Inl AWS_ERROR_MALFORMED_INPUT_STRING, parser1, w)
              | Some end_location \<Rightarrow>
                  (let node_name_len = to_size_t (int end_location - int next_location);
                       parser2 = parser1\<lparr>doc := aws_byte_cursor_advance (doc parser1)
                                   (to_size_t (int end_location - int (ptr (doc parser1)) + 1))\<rparr>;
                       node_decl_body = \<lparr>len = to_size_t (int node_name_len - 1),
                                         ptr = next_location + 1\<rparr>;
                       sibling_node = \<lparr>name = ZERO_CURSOR, attributes = [],
                                       doc_at_body = doc parser2\<rparr>
                   in case s_load_node_decl buf node_decl_body sibling_node of
                        Inl e \<Rightarrow> Some (Inl e, parser2, w)
                      | Inr sibling_node1 \<Rightarrow>
                          (if cb_stack parser2 = []
                             then Some (Inl UNDEFINED_BEHAVIOUR, parser2, w)
                           else
                             (let stack_data = last (cb_stack parser2) in
                              case fns (cb stack_data) parser2 sibling_node1
                                     (user_data stack_data) w of
                                None \<Rightarrow> None
                              | Some (b, parser3, w3) \<Rightarrow> Some (Inr (), parser3, w3))))))"

text \<open>The \<open>while (true)\<close> loop of \<open>aws_xml_node_traverse\<close>.\<close>

partial_function (option) aws_xml_node_traverse_loop ::
  "'w fn_table \<Rightarrow> string \<Rightarrow> aws_xml_node \<Rightarrow> nat \<Rightarrow> nat \<Rightarrow> aws_xml_parser \<Rightarrow> 'w \<Rightarrow>
     ((aws_error + unit) \<times> aws_xml_parser \<times> 'w) option" where
  "aws_xml_node_traverse_loop fns buf node on_node_encountered ud parser w =
     (case memchr buf (ptr (doc parser)) CHR ''<'' (len (doc parser)) of
        None \<Rightarrow> Some (Inl AWS_ERROR_MALFORMED_INPUT_STRING, parser, w)
      | Some next_location \<Rightarrow>
          (case memchr buf (ptr (doc parser)) CHR ''>'' (len (doc parser)) of
             None \<Rightarrow> Some (Inl AWS_ERROR_MALFORMED_INPUT_STRING, parser, w)
           | Some end_location \<Rightarrow>
               (case read_byte buf (next_location + 1) of
                  None \<Rightarrow> Some (Inl UNDEFINED_BEHAVIOUR, parser, w)
                | Some b \<Rightarrow>
                    (let parent_closed = (b = CHR ''/'');
                         node_name_len = to_size_t (int end_location - int next_location);
                         parser1 = parser\<lparr>doc := aws_byte_cursor_advance (doc parser)
                                     (to_size_t (int end_location - int (ptr (doc parser)) + 1))\<rparr>
                     in if parent_closed
                          then Some (Inr (), parser1\<lparr>cb_stack := butlast (cb_stack parser1)\<rparr>, w)
                        else
                          (let decl_body = \<lparr>len = to_size_t (int node_name_len - 1),
                                            ptr = next_location + 1\<rparr>;
                               next_node = \<lparr>name = ZERO_CURSOR, attributes = [],
                                            doc_at_body = doc parser1\<rparr>
                           in case s_load_node_decl buf decl_body next_node of
                                Inl e \<Rightarrow> Some (Inl e, parser1, w)
                              | Inr next_node1 \<Rightarrow>
                                  (case fns on_node_encountered parser1 next_node1 ud w of
                                     None \<Rightarrow> None
                                   | Some (continue, parser2, w2) \<Rightarrow>
                                       if \<not> continue then Some (Inr (), parser2, w2)
                                       else
                                         (case s_advance_to_closing_tag buf parser2 node of
                                            (Inl e, parser3) \<Rightarrow> Some (Inl e, parser3, w2)
                                          | (Inr body, parser3) \<Rightarrow>
                                              aws_xml_node_traverse_loop fns buf node
                                                on_node_encountered ud parser3 w2)))))))"

declare aws_xml_node_traverse_loop.simps [code]

definition aws_xml_node_traverse ::
  "'w fn_table \<Rightarrow> string \<Rightarrow> aws_xml_parser \<Rightarrow> aws_xml_node \<Rightarrow> nat \<Rightarrow> nat \<Rightarrow> 'w \<Rightarrow>
     ((aws_error + unit) \<times> aws_xml_parser \<times> 'w) option" where
  "aws_xml_node_traverse fns buf parser node on_node_encountered ud w =
     aws_xml_node_traverse_loop fns buf node on_node_encountered ud
       (parser\<lparr>cb_stack := cb_stack parser @ [\<lparr>cb = on_node_encountered, user_data = ud\<rparr>]\<rparr>) w"

text \<open>The preamble loop of \<open>aws_xml_parser_parse\<close> (\<open>while (parser->doc.len)\<close>).\<close>

partial_function (option) aws_xml_parser_parse_loop ::
  "string \<Rightarrow> aws_xml_parser \<Rightarrow> ((aws_error + unit) \<times> aws_xml_parser) option" where
  "aws_xml_parser_parse_loop buf parser =
     (if len (doc parser) \<noteq> 0 then
        (case memchr buf (ptr (doc parser)) CHR ''<'' (len (doc parser)) of
           None \<Rightarrow> Some (Inl AWS_ERROR_MALFORMED_INPUT_STRING, parser)
         | Some start \<Rightarrow>
             (case memchr buf (ptr (doc parser)) CHR ''>'' (len (doc parser)) of
                None \<Rightarrow> Some (Inl AWS_ERROR_MALFORMED_INPUT_STRING, parser)
              | Some location \<Rightarrow>
                  (let parser1 = parser\<lparr>doc := aws_byte_cursor_advance (doc parser)
                                    (to_size_t (int start - int (ptr (doc parser))))\<rparr>
                   in case read_byte buf (ptr (doc parser1) + 1) of
                        None \<Rightarrow> Some (Inl UNDEFINED_BEHAVIOUR, parser1)
                      | Some b \<Rightarrow>
                          if b = CHR ''?'' \<or> b = CHR ''!'' then
                            (let advance = to_size_t (int location - int (ptr (doc parser1)) + 1)
                             in aws_xml_parser_parse_loop buf
                                  (parser1\<lparr>doc := aws_byte_cursor_advance (doc parser1) advance\<rparr>))
                          else Some (Inr (), parser1))))
      else Some (Inr (), parser))"

declare aws_xml_parser_parse_loop.simps [code]

definition aws_xml_parser_parse ::
  "'w fn_table \<Rightarrow> string \<Rightarrow> aws_xml_parser \<Rightarrow> nat \<Rightarrow> nat \<Rightarrow> 'w \<Rightarrow>
     ((aws_error + unit) \<times> aws_xml_parser \<times> 'w) option" where
  "aws_xml_parser_parse fns buf parser on_node_encountered ud w =
     (case aws_xml_parser_parse_loop buf (parser\<lparr>cb_stack := []\<rparr>) of
        None \<Rightarrow> None
      | Some (Inl e, parser1) \<Rightarrow> Some (Inl e, parser1, w)
      | Some (Inr u, parser1) \<Rightarrow>
          s_node_next_sibling fns buf
            (parser1\<lparr>cb_stack := cb_stack parser1 @ [\<lparr>cb = on_node_encountered, user_data = ud\<rparr>]\<rparr>) w)"

section \<open>Properties stated by the claims\<close>

text \<open>The document cursor only moves forward: its start does not decrease, its length does
  not increase, and its end stays where it was.\<close>

definition cursor_shrinks :: "aws_byte_cursor \<Rightarrow> aws_byte_cursor \<Rightarrow> bool" where
  "cursor_shrinks c c' = (ptr c \<le> ptr c' \<and> len c' \<le> len c \<and> ptr c' + len c' = ptr c + len c)"

text \<open>Handlers reach the parser only through its operations, so a returning handler leaves
  the cursor where it was or further on.\<close>

definition handlers_shrink :: "'w fn_table \<Rightarrow> bool" where
  "handlers_shrink fns =
     (\<forall>f parser node ud w b parser' w'.
        fns f parser node ud w = Some (b, parser', w') \<longrightarrow>
        cursor_shrinks (doc parser) (doc parser'))"

text \<open>The buffers over which \<open>aws_byte_cursor_advance\<close> moves at all.\<close>

definition buffer_ok :: "string \<Rightarrow> bool" where
  "buffer_ok buf = (length buf \<le> SIZE_MAX div 2)"

subsection \<open>Handlers used as test inputs\<close>

text \<open>A handler that always returns true and touches nothing but its log of node names.\<close>

definition h_record_name :: "string \<Rightarrow> string list on_node_encountered_fn" where
  "h_record_name buf parser node ud w = Some (True, parser, w @ [cursor_bytes buf (name node)])"

text \<open>A handler that extracts the node's body and logs the outcome.\<close>

definition h_as_body :: "string \<Rightarrow> (aws_error + string) list on_node_encountered_fn" where
  "h_as_body buf parser node ud w =
     (case aws_xml_node_as_body buf parser node of
        (Inl e, parser1) \<Rightarrow> Some (True, parser1, w @ [Inl e])
      | (Inr body, parser1) \<Rightarrow> Some (True, parser1, w @ [Inr (cursor_bytes buf body)]))"

text \<open>A root handler that descends into the node it is given, with the handler \<open>child\<close>
  (function pointer 1) for its children.\<close>

definition h_traverse :: "string \<Rightarrow> 'w on_node_encountered_fn \<Rightarrow> 'w on_node_encountered_fn" where
  "h_traverse buf child parser node ud w =
     (case aws_xml_node_traverse (\<lambda>f. child) buf parser node 1 ud w of
        None \<Rightarrow> None
      | Some (st, parser1, w1) \<Rightarrow> Some (True, parser1, w1))"

subsection \<open>The declaration loader, stated on byte strings\<close>

text \<open>The pieces of a byte string between occurrences of \<open>c\<close>.\<close>

fun split_on :: "char \<Rightarrow> string \<Rightarrow> string list" where
  "split_on c [] = [[]]"
| "split_on c (x # xs) =
     (if x = c then [] # split_on c xs
      else (x # hd (split_on c xs)) # tl (split_on c xs))"

text \<open>A value without the double quotes at its two ends.\<close>

definition trim_double_quotes :: "string \<Rightarrow> string" where
  "trim_double_quotes v =
     rev (dropWhile (\<lambda>c. c = CHR 0x22) (rev (dropWhile (\<lambda>c. c = CHR 0x22) v)))"

text \<open>What a token after the name contributes: a token without \<open>=\<close> is an attribute with
  an empty value, \<open>name=value\<close> is an attribute with its value trimmed, and a token with two
  or more \<open>=\<close> contributes nothing.\<close>

definition attribute_of_token :: "string \<Rightarrow> (string \<times> string) option" where
  "attribute_of_token t =
     (case split_on CHR ''='' t of
        [n] \<Rightarrow> Some (n, [])
      | [n, v] \<Rightarrow> Some (n, trim_double_quotes v)
      | _ \<Rightarrow> None)"

definition attribute_strings :: "string \<Rightarrow> aws_xml_attribute \<Rightarrow> string \<times> string" where
  "attribute_strings buf a = (cursor_bytes buf (attr_name a), cursor_bytes buf (attr_value a))"

subsection \<open>Preamble declarations\<close>

text \<open>Text without brackets, if any, and then a bracketed region that starts with \<open><?\<close> or
  \<open><!\<close> and ends at its first \<open>>\<close>.\<close>

definition preamble_decl :: "string \<Rightarrow> bool" where
  "preamble_decl b =
     (let lead = takeWhile (\<lambda>c. c \<noteq> CHR ''<'') b;
          r = dropWhile (\<lambda>c. c \<noteq> CHR ''<'') b
      in CHR ''>'' \<notin> set lead \<and> 3 \<le> length r \<and>
         (r ! 1 = CHR ''?'' \<or> r ! 1 = CHR ''!'') \<and> last r = CHR ''>'' \<and>
         CHR ''>'' \<notin> set (butlast (drop 2 r)))"

subsection \<open>Observing the root handler\<close>

text \<open>The same handlers, answering \<open>b\<close> whatever they would have answered.\<close>

definition with_answer :: "bool \<Rightarrow> 'w fn_table \<Rightarrow> 'w fn_table" where
  "with_answer b fns =
     (\<lambda>f parser node ud w.
        map_option (\<lambda>(b', parser', w'). (b, parser', w')) (fns f parser node ud w))"

text \<open>The same handlers, with a counter of the calls made through the table.\<close>

definition counting :: "'w fn_table \<Rightarrow> ('w \<times> nat) fn_table" where
  "counting fns =
     (\<lambda>f parser node ud (w, k).
        map_option (\<lambda>(b, parser', w'). (b, parser', (w', Suc k))) (fns f parser node ud w))"

definition handlers_return :: "'w fn_table \<Rightarrow> bool" where
  "handlers_return fns = (\<forall>f parser node ud w. fns f parser node ud w \<noteq> None)"

text \<open>The sibling walk up to the call of the handler: either it ends there, with a status and
  a parser, or it has a parser, a node and the callback entry for the call.\<close>

definition next_sibling_decode ::
  "string \<Rightarrow> aws_xml_parser \<Rightarrow>
     ((aws_error + unit) \<times> aws_xml_parser) + (aws_xml_parser \<times> aws_xml_node \<times> cb_stack_data)" where
  "next_sibling_decode buf parser =
     (case s_node_next_sibling (\<lambda>f p n u w. Some (True, p, Some (p, n, last (cb_stack p))))
             buf parser None of
        Some (st, parser', None) \<Rightarrow> Inl (st, parser')
      | Some (st, parser', Some call) \<Rightarrow> Inr call
      | None \<Rightarrow> Inl (Inl UNDEFINED_BEHAVIOUR, parser))"

subsection \<open>Rounds of the traverse loop\<close>



section \<open>The document cursor\<close>

lemma cursor_shrinks_refl: "cursor_shrinks c c"
  by (simp add: cursor_shrinks_def)

lemma cursor_shrinks_trans:
  "cursor_shrinks a b \<Longrightarrow> cursor_shrinks b c \<Longrightarrow> cursor_shrinks a c"
  by (auto simp: cursor_shrinks_def)

lemma advance_shrinks: "cursor_shrinks c (aws_byte_cursor_advance c n)"
  by (simp add: cursor_shrinks_def aws_byte_cursor_advance_def)

lemma advance_shrinks_trans:
  "cursor_shrinks a c \<Longrightarrow> cursor_shrinks a (aws_byte_cursor_advance c n)"
  using advance_shrinks cursor_shrinks_trans by blast

lemma closing_tag_shrinks:
  "cursor_shrinks (doc parser) (doc (snd (s_advance_to_closing_tag buf parser node)))"
  by (simp add: s_advance_to_closing_tag_def Let_def advance_shrinks cursor_shrinks_refl
      split: sum.split)

lemma shrinks_from_advance:
  "cursor_shrinks (aws_byte_cursor_advance c n) d \<Longrightarrow> cursor_shrinks c d"
  using advance_shrinks cursor_shrinks_trans by blast

lemma parse_loop_shrinks_aux:
  assumes "aws_xml_parser_parse_loop buf parser = Some r"
  shows "cursor_shrinks (doc parser) (doc (snd r)) \<and> cb_stack (snd r) = cb_stack parser"
proof (rule aws_xml_parser_parse_loop.raw_induct
    [where P = "\<lambda>buf parser r. cursor_shrinks (doc parser) (doc (snd r)) \<and>
                   cb_stack (snd r) = cb_stack parser", OF _ assms], goal_cases)
  case (1 loop buf parser r)
  have IH: "\<And>p y. loop buf p = Some y \<Longrightarrow>
              cursor_shrinks (doc p) (doc (snd y)) \<and> cb_stack (snd y) = cb_stack p"
    using 1(1) by blast
  show ?case
    using 1(2)
    by (auto simp: Let_def cursor_shrinks_refl advance_shrinks
             split: option.splits if_splits dest!: IH shrinks_from_advance)
qed


lemma traverse_loop_shrinks_aux:
  assumes "aws_xml_node_traverse_loop fns buf node f ud parser w = Some r"
  shows "handlers_shrink fns \<longrightarrow> cursor_shrinks (doc parser) (doc (fst (snd r)))"
proof (rule aws_xml_node_traverse_loop.raw_induct
    [where P = "\<lambda>fns buf node f ud parser w r.
                  handlers_shrink fns \<longrightarrow> cursor_shrinks (doc parser) (doc (fst (snd r)))",
     OF _ assms], goal_cases)
  case (1 loop fns buf node f ud parser w r)
  show ?case
  proof
    assume hs: "handlers_shrink fns"
    have IH: "\<And>p w y. loop fns buf node f ud p w = Some y \<Longrightarrow>
                cursor_shrinks (doc p) (doc (fst (snd y)))"
      using 1(1) hs by blast
    have H: "\<And>p n b p' w w'. fns f p n ud w = Some (b, p', w') \<Longrightarrow>
                cursor_shrinks (doc p) (doc p')"
      using hs unfolding handlers_shrink_def by blast
    have C: "\<And>p e p'. s_advance_to_closing_tag buf p node = (e, p') \<Longrightarrow>
                cursor_shrinks (doc p) (doc p')"
      using closing_tag_shrinks by (metis snd_conv)
    show "cursor_shrinks (doc parser) (doc (fst (snd r)))"
      using 1(2)
      by (auto simp: Let_def cursor_shrinks_refl advance_shrinks
             split: option.splits if_splits sum.splits prod.splits
             dest!: IH H C shrinks_from_advance
             intro: cursor_shrinks_trans)
  qed
qed


lemma next_sibling_shrinks:
  assumes "handlers_shrink fns"
    and "s_node_next_sibling fns buf parser w = Some r"
  shows "cursor_shrinks (doc parser) (doc (fst (snd r)))"
proof -
  have H: "\<And>g p n u b p' w w'. fns g p n u w = Some (b, p', w') \<Longrightarrow>
              cursor_shrinks (doc p) (doc p')"
    using assms(1) unfolding handlers_shrink_def by blast
  show ?thesis
    using assms(2) unfolding s_node_next_sibling_def
    by (auto simp: Let_def cursor_shrinks_refl advance_shrinks
           split: option.splits if_splits sum.splits prod.splits list.splits
           dest!: H shrinks_from_advance intro!: advance_shrinks_trans)
qed

lemma parse_shrinks:
  assumes "handlers_shrink fns"
    and "aws_xml_parser_parse fns buf parser f ud w = Some r"
  shows "cursor_shrinks (doc parser) (doc (fst (snd r)))"
proof (cases "aws_xml_parser_parse_loop buf (parser\<lparr>cb_stack := []\<rparr>)")
  case None
  with assms(2) show ?thesis by (simp add: aws_xml_parser_parse_def)
next
  case (Some a)
  obtain st parser1 where a: "a = (st, parser1)" by (cases a)
  have s1: "cursor_shrinks (doc parser) (doc parser1)"
    using parse_loop_shrinks_aux [OF Some] a by simp
  show ?thesis
  proof (cases st)
    case (Inl e)
    with assms(2) Some a s1 show ?thesis by (auto simp add: aws_xml_parser_parse_def)
  next
    case (Inr u)
    with assms(2) Some a
    have "s_node_next_sibling fns buf
            (parser1\<lparr>cb_stack := cb_stack parser1 @ [\<lparr>cb = f, user_data = ud\<rparr>]\<rparr>) w = Some r"
      by (simp add: aws_xml_parser_parse_def)
    from next_sibling_shrinks [OF assms(1) this] s1 show ?thesis
      by (auto intro: cursor_shrinks_trans)
  qed
qed

text \<open>
  C9. Across parse, traverse and node_as_body the document cursor shrinks monotonically:
  whenever an operation returns, with an error or without one, the cursor's start has not moved
  backward, its length has not grown, and it is still a slice of the cursor bound at init,
  provided the handlers that the operation calls leave the cursor no further back either.
\<close>

theorem document_cursor_shrinks_monotonically:
  assumes "handlers_shrink fns"
    and "cursor_shrinks (doc (aws_xml_parser_init d)) (doc parser)"
  shows "(\<forall>st parser' w'. aws_xml_parser_parse fns buf parser f ud w = Some (st, parser', w') \<longrightarrow>
            cursor_shrinks (doc parser) (doc parser') \<and> cursor_shrinks d (doc parser')) \<and>
         (\<forall>st parser' w'. aws_xml_node_traverse fns buf parser node f ud w = Some (st, parser', w') \<longrightarrow>
            cursor_shrinks (doc parser) (doc parser') \<and> cursor_shrinks d (doc parser')) \<and>
         (\<forall>st parser'. aws_xml_node_as_body buf parser node = (st, parser') \<longrightarrow>
            cursor_shrinks (doc parser) (doc parser') \<and> cursor_shrinks d (doc parser'))"
proof -
  have d: "cursor_shrinks d (doc parser)"
    using assms(2) by (simp add: aws_xml_parser_init_def)
  have p: "\<And>st parser' w'. aws_xml_parser_parse fns buf parser f ud w = Some (st, parser', w') \<Longrightarrow>
            cursor_shrinks (doc parser) (doc parser')"
    using parse_shrinks [OF assms(1)] by fastforce
  have t: "\<And>st parser' w'. aws_xml_node_traverse fns buf parser node f ud w = Some (st, parser', w') \<Longrightarrow>
            cursor_shrinks (doc parser) (doc parser')"
    using traverse_loop_shrinks_aux assms(1) unfolding aws_xml_node_traverse_def by fastforce
  have b: "\<And>st parser'. aws_xml_node_as_body buf parser node = (st, parser') \<Longrightarrow>
            cursor_shrinks (doc parser) (doc parser')"
    using closing_tag_shrinks [of parser buf node] by (simp add: aws_xml_node_as_body_def)
  show ?thesis
    using d p t b cursor_shrinks_trans by blast
qed


theorem document_cursor_shrinks_monotonically_witness:
  "handlers_shrink (\<lambda>f. h_record_name ''<a></a>'') \<and>
   aws_xml_parser_parse (\<lambda>f. h_record_name ''<a></a>'') ''<a></a>''
       (aws_xml_parser_init \<lparr>len = 7, ptr = 0\<rparr>) 0 0 [] =
     Some (Inr (), \<lparr>doc = \<lparr>len = 4, ptr = 3\<rparr>, cb_stack = [\<lparr>cb = 0, user_data = 0\<rparr>]\<rparr>, [''a'']) \<and>
   cursor_shrinks \<lparr>len = 7, ptr = 0\<rparr> \<lparr>len = 4, ptr = 3\<rparr>"
proof -
  let ?fns = "\<lambda>f::nat. h_record_name ''<a></a>''"
  let ?p = "aws_xml_parser_init \<lparr>len = 7, ptr = 0\<rparr>"
  have h1: "handlers_shrink ?fns"
    by (simp add: handlers_shrink_def h_record_name_def cursor_shrinks_def)
  have h2: "cursor_shrinks (doc (aws_xml_parser_init \<lparr>len = 7, ptr = 0\<rparr>)) (doc ?p)"
    by (simp add: cursor_shrinks_def)
  have ev: "aws_xml_parser_parse ?fns ''<a></a>'' ?p 0 0 [] =
     Some (Inr (), \<lparr>doc = \<lparr>len = 4, ptr = 3\<rparr>, cb_stack = [\<lparr>cb = 0, user_data = 0\<rparr>]\<rparr>, [''a''])"
    by (simp add: aws_xml_parser_parse_def aws_xml_parser_init_def
        aws_xml_parser_parse_loop.simps s_node_next_sibling_def h_record_name_def
        memchr_def read_byte_def to_size_t_def SIZE_MAX_def aws_byte_cursor_advance_def
        s_load_node_decl_def aws_byte_cursor_split_on_char_def cursor_in_bounds_def
        cursor_bytes_def split_scratch_size_def cursor_at_def ZERO_CURSOR_def Let_def)
  from document_cursor_shrinks_monotonically [OF h1 h2, of "''<a></a>''" 0 0 "[]"] ev
  have "cursor_shrinks \<lparr>len = 7, ptr = 0\<rparr> \<lparr>len = 4, ptr = 3\<rparr>"
    by fastforce
  with h1 ev show ?thesis by blast
qed

section \<open>Sizes, searches and cursor arithmetic\<close>

lemma SIZE_MAX_half: "SIZE_MAX div 2 = 9223372036854775807"
  by (simp add: SIZE_MAX_def)

lemma to_size_t_nat: "n \<le> SIZE_MAX \<Longrightarrow> to_size_t (int n) = n"
  by (simp add: to_size_t_def SIZE_MAX_def)

lemma to_size_t_diff: "b \<le> a \<Longrightarrow> a - b \<le> SIZE_MAX \<Longrightarrow> to_size_t (int a - int b) = a - b"
  using to_size_t_nat [of "a - b"] by (simp add: of_nat_diff)

lemma to_size_t_diff1:
  "b \<le> a \<Longrightarrow> a - b < SIZE_MAX \<Longrightarrow> to_size_t (int a - int b + 1) = a - b + 1"
  using to_size_t_nat [of "a - b + 1"] by (simp add: of_nat_diff add.commute)

lemma to_size_t_pred: "0 < n \<Longrightarrow> n \<le> SIZE_MAX \<Longrightarrow> to_size_t (int n - 1) = n - 1"
  using to_size_t_nat [of "n - 1"] by (simp add: of_nat_diff)

lemma to_size_t_plus: "n + m \<le> SIZE_MAX \<Longrightarrow> to_size_t (int n + int m) = n + m"
  using to_size_t_nat [of "n + m"] by simp

lemma half_le_SIZE_MAX: "n \<le> SIZE_MAX div 2 \<Longrightarrow> n \<le> SIZE_MAX"
  by simp

lemma index_of_None: "index_of c xs = None \<longleftrightarrow> c \<notin> set xs"
  by (induction xs) auto

lemma index_of_append: "c \<notin> set xs \<Longrightarrow> index_of c (xs @ c # ys) = Some (length xs)"
  by (induction xs) auto

lemma index_of_Some:
  "index_of c xs = Some i \<Longrightarrow> i < length xs \<and> xs ! i = c \<and> c \<notin> set (take i xs)"
proof (induction xs arbitrary: i)
  case Nil
  then show ?case by simp
next
  case (Cons x xs)
  show ?case
  proof (cases "x = c")
    case True
    with Cons.prems show ?thesis by simp
  next
    case False
    with Cons.prems obtain j where j: "index_of c xs = Some j" "i = Suc j" by auto
    from Cons.IH [OF j(1)] False j(2) show ?thesis by auto
  qed
qed

lemma memchr_bytes:
  "memchr buf (ptr c) x (len c) = map_option (\<lambda>i. ptr c + i) (index_of x (cursor_bytes buf c))"
  by (simp add: memchr_def cursor_bytes_def)

lemma length_cursor_bytes: "cursor_in_bounds buf c \<Longrightarrow> length (cursor_bytes buf c) = len c"
  by (auto simp: cursor_in_bounds_def cursor_bytes_def)

lemma advance_eq:
  "n \<le> len c \<Longrightarrow> len c \<le> SIZE_MAX div 2 \<Longrightarrow>
   aws_byte_cursor_advance c n = \<lparr>len = len c - n, ptr = ptr c + n\<rparr>"
  by (auto simp: aws_byte_cursor_advance_def)

lemma advance_zero: "aws_byte_cursor_advance c 0 = c"
  by (simp add: aws_byte_cursor_advance_def)

lemma cursor_bytes_drop:
  "n \<le> len c \<Longrightarrow> cursor_bytes buf \<lparr>len = len c - n, ptr = ptr c + n\<rparr> = drop n (cursor_bytes buf c)"
  by (simp add: cursor_bytes_def drop_take add.commute)

lemma cursor_bytes_take:
  "n \<le> len c \<Longrightarrow> cursor_bytes buf \<lparr>len = n, ptr = ptr c\<rparr> = take n (cursor_bytes buf c)"
  by (simp add: cursor_bytes_def min_def)

lemma cursor_bytes_sub:
  "k + n \<le> len c \<Longrightarrow>
   cursor_bytes buf \<lparr>len = n, ptr = ptr c + k\<rparr> = take n (drop k (cursor_bytes buf c))"
  by (simp add: cursor_bytes_def drop_take add.commute min_def)

lemma read_byte_bytes:
  "cursor_bytes buf c = xs \<Longrightarrow> i < length xs \<Longrightarrow> read_byte buf (ptr c + i) = Some (xs ! i)"
  by (auto simp: cursor_bytes_def read_byte_def)

lemma first_match_Some:
  "first_match n h = Some i \<Longrightarrow>
     take (length n) (drop i h) = n \<and> (\<forall>j<i. take (length n) (drop j h) \<noteq> n)"
proof (induction h arbitrary: i)
  case Nil
  then show ?case by simp
next
  case (Cons x xs)
  show ?case
  proof (cases "take (length n) (x # xs) = n")
    case True
    with Cons.prems show ?thesis by simp
  next
    case False
    with Cons.prems obtain k where k: "first_match n xs = Some k" "i = Suc k" by auto
    from Cons.IH [OF k(1)] have a: "take (length n) (drop k xs) = n"
      and b: "\<forall>j<k. take (length n) (drop j xs) \<noteq> n" by auto
    have "\<forall>j<i. take (length n) (drop j (x # xs)) \<noteq> n"
    proof (intro allI impI)
      fix j assume "j < i"
      then show "take (length n) (drop j (x # xs)) \<noteq> n"
        using False b k(2) by (cases j) auto
    qed
    with a k(2) show ?thesis by simp
  qed
qed

lemma first_match_None:
  "n \<noteq> [] \<Longrightarrow> first_match n h = None \<longleftrightarrow> (\<forall>j. take (length n) (drop j h) \<noteq> n)"
proof (induction h)
  case Nil
  then show ?case by auto
next
  case (Cons x xs)
  show ?case
  proof (cases "take (length n) (x # xs) = n")
    case True
    then have "take (length n) (drop 0 (x # xs)) = n" by simp
    with True show ?thesis by (metis first_match.simps(2) option.distinct(1))
  next
    case False
    have "(\<forall>j. take (length n) (drop j (x # xs)) \<noteq> n) \<longleftrightarrow> (\<forall>j. take (length n) (drop j xs) \<noteq> n)"
    proof
      assume a: "\<forall>j. take (length n) (drop j (x # xs)) \<noteq> n"
      show "\<forall>j. take (length n) (drop j xs) \<noteq> n"
      proof
        fix j from a have "take (length n) (drop (Suc j) (x # xs)) \<noteq> n" by blast
        then show "take (length n) (drop j xs) \<noteq> n" by simp
      qed
    next
      assume a: "\<forall>j. take (length n) (drop j xs) \<noteq> n"
      show "\<forall>j. take (length n) (drop j (x # xs)) \<noteq> n"
      proof
        fix j show "take (length n) (drop j (x # xs)) \<noteq> n"
          using False a by (cases j) auto
      qed
    qed
    with False Cons show ?thesis by simp
  qed
qed

lemma sublist_iff_take_drop: "sublist n h \<longleftrightarrow> (\<exists>j. take (length n) (drop j h) = n)"
proof
  assume "sublist n h"
  then obtain ps ss where "h = ps @ n @ ss" by (auto simp: sublist_def)
  then have "take (length n) (drop (length ps) h) = n" by simp
  then show "\<exists>j. take (length n) (drop j h) = n" by blast
next
  assume "\<exists>j. take (length n) (drop j h) = n"
  then obtain j where j: "take (length n) (drop j h) = n" by blast
  have "h = take j h @ (take (length n) (drop j h) @ drop (length n) (drop j h))"
    by (simp only: append_take_drop_id)
  with j have "h = take j h @ n @ drop (length n) (drop j h)" by simp
  then show "sublist n h" unfolding sublist_def by blast
qed

lemma first_match_None_sublist: "n \<noteq> [] \<Longrightarrow> first_match n h = None \<longleftrightarrow> \<not> sublist n h"
  by (simp add: first_match_None sublist_iff_take_drop)

lemma first_match_append:
  "c \<notin> set pre \<Longrightarrow> first_match (c # n) (pre @ (c # n) @ post) = Some (length pre)"
proof (induction pre)
  case Nil
  then show ?case by simp
next
  case (Cons x xs)
  then have "x \<noteq> c" by auto
  with Cons show ?case by simp
qed

lemma first_match_bound:
  assumes "first_match n h = Some i" and "n \<noteq> []"
  shows "i + length n \<le> length h"
proof -
  from first_match_Some [OF assms(1)] have "take (length n) (drop i h) = n" by simp
  then have "length (take (length n) (drop i h)) = length n" by simp
  then have "length n \<le> length h - i" by simp
  moreover from assms(2) have "0 < length n" by simp
  ultimately show ?thesis by linarith
qed

section \<open>Splitting and trimming\<close>

lemma split_on_nonempty: "split_on c xs \<noteq> []"
  by (induction xs) auto

lemma length_split_on: "length (split_on c xs) = Suc (length (filter (\<lambda>x. x = c) xs))"
proof (induction xs)
  case Nil
  then show ?case by simp
next
  case (Cons x xs)
  have "length (tl (split_on c xs)) = length (filter (\<lambda>x. x = c) xs)"
    using Cons by simp
  with Cons show ?case by simp
qed

lemma length_split_cursors: "length (split_cursors c xs start n) = length (split_on c xs)"
proof (induction xs arbitrary: start n)
  case Nil
  then show ?case by simp
next
  case (Cons x xs)
  have "Suc (length (tl (split_on c xs))) = length (split_on c xs)"
    using split_on_nonempty [of c xs] by (cases "split_on c xs") auto
  with Cons show ?case by simp
qed

lemma split_on_no_delim: "c \<notin> set xs \<Longrightarrow> split_on c xs = [xs]"
  by (induction xs) auto

lemma split_on_append:
  "c \<notin> set xs \<Longrightarrow> split_on c (xs @ c # ys) = xs # split_on c ys"
  by (induction xs) auto

lemma hd_split_on: "hd (split_on c xs) = takeWhile (\<lambda>x. x \<noteq> c) xs"
  by (induction xs) auto

lemma split_cursors_bytes:
  "take (length xs) (drop (start + n) buf) = xs \<Longrightarrow>
   map (cursor_bytes buf) (split_cursors c xs start n) =
     (take n (drop start buf) @ hd (split_on c xs)) # tl (split_on c xs)"
proof (induction xs arbitrary: start n)
  case Nil
  then show ?case by (simp add: cursor_bytes_def)
next
  case (Cons x xs)
  from Cons.prems have lt: "start + n < length buf"
    by (cases "start + n < length buf") auto
  from Cons.prems have x: "buf ! (start + n) = x"
    using lt by (metis Cons_nth_drop_Suc length_Cons list.inject take_Suc_Cons)
  from Cons.prems have rest: "take (length xs) (drop (Suc (start + n)) buf) = xs"
    using lt by (metis Cons_nth_drop_Suc length_Cons list.inject take_Suc_Cons)
  show ?case
  proof (cases "x = c")
    case True
    from rest have "take (length xs) (drop ((start + n + 1) + 0) buf) = xs" by simp
    from Cons.IH [OF this]
    have "map (cursor_bytes buf) (split_cursors c xs (start + n + 1) 0) = split_on c xs"
      using split_on_nonempty [of c xs] by simp
    moreover have "cursor_bytes buf \<lparr>len = n, ptr = start\<rparr> = take n (drop start buf)"
      by (simp add: cursor_bytes_def)
    ultimately show ?thesis using True by simp
  next
    case False
    from rest have "take (length xs) (drop (start + (n + 1)) buf) = xs" by simp
    from Cons.IH [OF this]
    have ih: "map (cursor_bytes buf) (split_cursors c xs start (n + 1)) =
            (take (n + 1) (drop start buf) @ hd (split_on c xs)) # tl (split_on c xs)" .
    have "take (n + 1) (drop start buf) = take n (drop start buf) @ [x]"
      using lt x by (simp add: take_Suc_conv_app_nth add.commute)
    with ih False show ?thesis by simp
  qed
qed

lemma split_cursors_in_bounds:
  "start + n + length xs \<le> length buf \<Longrightarrow>
   \<forall>t \<in> set (split_cursors c xs start n). cursor_in_bounds buf t"
proof (induction xs arbitrary: start n)
  case Nil
  then show ?case by (simp add: cursor_in_bounds_def)
next
  case (Cons x xs)
  have a: "(start + n + 1) + 0 + length xs \<le> length buf" using Cons.prems by simp
  have b: "start + (n + 1) + length xs \<le> length buf" using Cons.prems by simp
  from Cons.IH [OF a] Cons.IH [OF b] Cons.prems show ?case
    by (auto simp: cursor_in_bounds_def)
qed

lemma split_on_char_ok:
  assumes "cursor_in_bounds buf input"
    and "length (split_on c (cursor_bytes buf input)) \<le> cap"
  shows "\<exists>out. aws_byte_cursor_split_on_char buf input c cap = Inr out \<and>
           map (cursor_bytes buf) out = split_on c (cursor_bytes buf input) \<and>
           (\<forall>t \<in> set out. cursor_in_bounds buf t)"
proof -
  let ?xs = "cursor_bytes buf input"
  let ?out = "split_cursors c ?xs (ptr input) 0"
  have len: "length ?xs = len input" using assms(1) by (rule length_cursor_bytes)
  have "take (length ?xs) (drop (ptr input + 0) buf) = ?xs"
    using len by (simp add: cursor_bytes_def)
  from split_cursors_bytes [OF this]
  have m: "map (cursor_bytes buf) ?out = split_on c ?xs"
    using split_on_nonempty [of c ?xs] by simp
  have "ptr input + 0 + length ?xs \<le> length buf"
    using assms(1) len by (simp add: cursor_in_bounds_def)
  from split_cursors_in_bounds [OF this]
  have b: "\<forall>t \<in> set ?out. cursor_in_bounds buf t" .
  have "aws_byte_cursor_split_on_char buf input c cap = Inr ?out"
    using assms by (simp add: aws_byte_cursor_split_on_char_def Let_def length_split_cursors)
  with m b show ?thesis by blast
qed

lemma split_on_char_too_many:
  assumes "cursor_in_bounds buf input"
    and "cap < length (split_on c (cursor_bytes buf input))"
  shows "aws_byte_cursor_split_on_char buf input c cap = Inl AWS_ERROR_INVALID_INDEX"
  using assms by (simp add: aws_byte_cursor_split_on_char_def Let_def length_split_cursors)

lemma left_trim_takeWhile: "left_trim P xs = length (takeWhile P xs)"
  by (induction xs) auto

lemma take_minus_takeWhile_rev:
  "take (length ys - length (takeWhile P (rev ys))) ys = rev (dropWhile P (rev ys))"
proof -
  have "rev (dropWhile P (rev ys)) = rev (drop (length (takeWhile P (rev ys))) (rev ys))"
    by (simp only: dropWhile_eq_drop)
  also have "\<dots> = take (length (rev ys) - length (takeWhile P (rev ys))) (rev (rev ys))"
    by (simp only: rev_drop)
  finally show ?thesis by simp
qed

lemma trim_pred_bytes:
  assumes "cursor_in_bounds buf c"
  shows "cursor_bytes buf (aws_byte_cursor_trim_pred buf c P) =
           rev (dropWhile P (rev (dropWhile P (cursor_bytes buf c))))"
proof -
  let ?xs = "cursor_bytes buf c"
  let ?k = "length (takeWhile P ?xs)"
  let ?l = "aws_byte_cursor_left_trim_pred buf c P"
  have len: "length ?xs = len c" using assms by (rule length_cursor_bytes)
  have k: "?k \<le> len c" using len length_takeWhile_le [of P ?xs] by simp
  have l: "?l = \<lparr>len = len c - ?k, ptr = ptr c + ?k\<rparr>"
    by (simp add: aws_byte_cursor_left_trim_pred_def left_trim_takeWhile Let_def)
  have "cursor_bytes buf ?l = drop ?k (cursor_bytes buf c)"
    unfolding l using k by (rule cursor_bytes_drop)
  then have lb: "cursor_bytes buf ?l = dropWhile P ?xs"
    by (simp add: dropWhile_eq_drop)
  let ?ys = "dropWhile P ?xs"
  let ?j = "length (takeWhile P (rev ?ys))"
  have leny: "length ?ys = len ?l" using l len by (simp add: dropWhile_eq_drop)
  have "aws_byte_cursor_trim_pred buf c P = \<lparr>len = len ?l - ?j, ptr = ptr ?l\<rparr>"
    by (simp add: aws_byte_cursor_trim_pred_def aws_byte_cursor_right_trim_pred_def
        left_trim_takeWhile lb Let_def)
  moreover have "cursor_bytes buf \<lparr>len = len ?l - ?j, ptr = ptr ?l\<rparr> =
      take (len ?l - ?j) (cursor_bytes buf ?l)"
    by (rule cursor_bytes_take) simp
  moreover have "take (len ?l - ?j) ?ys = rev (dropWhile P (rev ?ys))"
    unfolding leny [symmetric] by (rule take_minus_takeWhile_rev)
  ultimately show ?thesis using lb by simp
qed

section \<open>The declaration loader\<close>

lemma s_trim_quotes_fn_eq: "s_trim_quotes_fn = (\<lambda>c. c = CHR 0x22)"
  by (rule ext) (simp add: s_trim_quotes_fn_def)

lemma zero_cursor_in_bounds: "cursor_in_bounds buf ZERO_CURSOR"
  by (simp add: cursor_in_bounds_def ZERO_CURSOR_def)

lemma zero_cursor_bytes: "cursor_bytes buf ZERO_CURSOR = []"
  by (simp add: cursor_bytes_def ZERO_CURSOR_def)

lemma three_or_more:
  assumes "2 < length xs"
  shows "\<exists>a b c r. xs = a # b # c # r"
proof (cases xs)
  case Nil
  with assms show ?thesis by simp
next
  case (Cons a r1)
  note c1 = this
  show ?thesis
  proof (cases r1)
    case Nil
    with c1 assms show ?thesis by simp
  next
    case (Cons b r2)
    with c1 assms show ?thesis by (cases r2) auto
  qed
qed

lemma attribute_step:
  assumes "cursor_in_bounds buf t"
  shows "(case aws_byte_cursor_split_on_char buf t CHR ''='' 2 of
            Inr out \<Rightarrow>
              Some (attribute_strings buf
                \<lparr>attr_name = cursor_at out 0,
                 attr_value = aws_byte_cursor_trim_pred buf (cursor_at out 1) s_trim_quotes_fn\<rparr>)
          | Inl e \<Rightarrow> None) = attribute_of_token (cursor_bytes buf t)"
proof (cases "length (split_on CHR ''='' (cursor_bytes buf t)) \<le> 2")
  case True
  from split_on_char_ok [OF assms True] obtain out where
    out: "aws_byte_cursor_split_on_char buf t CHR ''='' 2 = Inr out"
    and m: "map (cursor_bytes buf) out = split_on CHR ''='' (cursor_bytes buf t)"
    and b: "\<forall>t \<in> set out. cursor_in_bounds buf t" by blast
  have "length (map (cursor_bytes buf) out) \<le> 2" using True by (simp only: m)
  then have lo: "length out \<le> 2" by simp
  have "map (cursor_bytes buf) out \<noteq> []" by (simp add: m split_on_nonempty)
  then have ne: "out \<noteq> []" by simp
  show ?thesis
  proof (cases out)
    case Nil
    with ne show ?thesis by simp
  next
    case (Cons o0 r)
    show ?thesis
    proof (cases r)
      case Nil
      with Cons m have p: "split_on CHR ''='' (cursor_bytes buf t) = [cursor_bytes buf o0]"
        by simp
      have "cursor_bytes buf (aws_byte_cursor_trim_pred buf ZERO_CURSOR s_trim_quotes_fn) = []"
        using trim_pred_bytes [OF zero_cursor_in_bounds] by (simp add: zero_cursor_bytes)
      with out Cons Nil p show ?thesis
        by (simp add: attribute_of_token_def attribute_strings_def cursor_at_def)
    next
      case (Cons o1 r')
      with lo \<open>out = o0 # r\<close> have r': "r' = []" by simp
      with Cons \<open>out = o0 # r\<close> m
      have p: "split_on CHR ''='' (cursor_bytes buf t) = [cursor_bytes buf o0, cursor_bytes buf o1]"
        by simp
      have "cursor_in_bounds buf o1" using b Cons \<open>out = o0 # r\<close> by simp
      from trim_pred_bytes [OF this]
      have "cursor_bytes buf (aws_byte_cursor_trim_pred buf o1 s_trim_quotes_fn) =
              trim_double_quotes (cursor_bytes buf o1)"
        by (simp add: trim_double_quotes_def s_trim_quotes_fn_eq)
      with out Cons r' \<open>out = o0 # r\<close> p show ?thesis
        by (simp add: attribute_of_token_def attribute_strings_def cursor_at_def)
    qed
  qed
next
  case False
  then have gt: "2 < length (split_on CHR ''='' (cursor_bytes buf t))" by simp
  from split_on_char_too_many [OF assms gt]
  have e: "aws_byte_cursor_split_on_char buf t CHR ''='' 2 = Inl AWS_ERROR_INVALID_INDEX" .
  from three_or_more [OF gt]
  obtain a b c r where "split_on CHR ''='' (cursor_bytes buf t) = a # b # c # r"
    by blast
  with e show ?thesis by (simp add: attribute_of_token_def)
qed


lemma map_filter_Cons:
  "List.map_filter f (x # xs) =
     (case f x of None \<Rightarrow> List.map_filter f xs | Some y \<Rightarrow> y # List.map_filter f xs)"
  by (simp add: List.map_filter_def split: option.split)

lemma load_attributes_strings:
  assumes "\<forall>t \<in> set cs. cursor_in_bounds buf t"
    and "length attrs + length cs \<le> attributes_size"
  shows "map (attribute_strings buf) (s_load_attributes buf cs attrs) =
           map (attribute_strings buf) attrs @
           List.map_filter attribute_of_token (map (cursor_bytes buf) cs)"
  using assms
proof (induction cs arbitrary: attrs)
  case Nil
  then show ?case by (simp add: List.map_filter_def)
next
  case (Cons t cs)
  have tb: "cursor_in_bounds buf t" using Cons.prems(1) by simp
  have cb: "\<forall>t \<in> set cs. cursor_in_bounds buf t" using Cons.prems(1) by simp
  have room: "length attrs < attributes_size" using Cons.prems(2) by simp
  note step = attribute_step [OF tb]
  show ?case
  proof (cases "aws_byte_cursor_split_on_char buf t CHR ''='' 2")
    case (Inl e)
    with step have none: "attribute_of_token (cursor_bytes buf t) = None" by simp
    have "length attrs + length cs \<le> attributes_size" using Cons.prems(2) by simp
    from Cons.IH [OF cb this] Inl none show ?thesis by (simp add: map_filter_Cons)
  next
    case (Inr out)
    let ?a = "\<lparr>attr_name = cursor_at out 0,
               attr_value = aws_byte_cursor_trim_pred buf (cursor_at out 1) s_trim_quotes_fn\<rparr>"
    from Inr step have some: "attribute_of_token (cursor_bytes buf t) = Some (attribute_strings buf ?a)"
      by simp
    have push: "array_list_push_back attributes_size attrs ?a = attrs @ [?a]"
      using room by (simp add: array_list_push_back_def)
    have "length (attrs @ [?a]) + length cs \<le> attributes_size" using Cons.prems(2) by simp
    from Cons.IH [OF cb this] Inr some push show ?thesis by (simp add: map_filter_Cons)
  qed
qed

lemma s_load_node_decl_ok:
  assumes "cursor_in_bounds buf decl_body"
    and "attributes node = []"
    and "length (split_on CHR '' '' (cursor_bytes buf decl_body)) \<le> split_scratch_size"
  shows "\<exists>node'. s_load_node_decl buf decl_body node = Inr node' \<and>
           name node' = \<lparr>len = length (hd (split_on CHR '' '' (cursor_bytes buf decl_body))),
                         ptr = ptr decl_body\<rparr> \<and>
           cursor_in_bounds buf (name node') \<and>
           cursor_bytes buf (name node') = hd (split_on CHR '' '' (cursor_bytes buf decl_body)) \<and>
           doc_at_body node' = doc_at_body node \<and>
           map (attribute_strings buf) (attributes node') =
             List.map_filter attribute_of_token (tl (split_on CHR '' '' (cursor_bytes buf decl_body)))"
proof -
  let ?toks = "split_on CHR '' '' (cursor_bytes buf decl_body)"
  from split_on_char_ok [OF assms(1) assms(3)] obtain out where
    out: "aws_byte_cursor_split_on_char buf decl_body CHR '' '' split_scratch_size = Inr out"
    and m: "map (cursor_bytes buf) out = ?toks"
    and b: "\<forall>t \<in> set out. cursor_in_bounds buf t" by blast
  have "map (cursor_bytes buf) out \<noteq> []" by (simp add: m split_on_nonempty)
  then obtain o0 r where o: "out = o0 # r" by (cases out) auto
  have lo: "length out \<le> split_scratch_size"
    using assms(3) m by (metis length_map)
  have o0: "o0 = \<lparr>len = length (hd ?toks), ptr = ptr decl_body\<rparr>"
  proof -
    have "out = split_cursors CHR '' '' (cursor_bytes buf decl_body) (ptr decl_body) 0"
      using out assms(1)
      by (simp add: aws_byte_cursor_split_on_char_def Let_def split: if_splits)
    moreover have "\<And>xs s n. hd (split_cursors CHR '' '' xs s n) =
        \<lparr>len = n + length (hd (split_on CHR '' '' xs)), ptr = s\<rparr>"
    proof -
      fix xs s n
      show "hd (split_cursors CHR '' '' xs s n) =
        \<lparr>len = n + length (hd (split_on CHR '' '' xs)), ptr = s\<rparr>"
        by (induction xs arbitrary: n) auto
    qed
    ultimately show ?thesis using o by (metis add_0 list.sel(1))
  qed
  have hb: "cursor_bytes buf o0 = hd ?toks" using m o by (metis list.sel(1) list.simps(9))
  have ob: "cursor_in_bounds buf o0" using b o by simp
  have rb: "\<forall>t \<in> set r. cursor_in_bounds buf t" using b o by simp
  have rm: "map (cursor_bytes buf) r = tl ?toks" using m o by (metis list.sel(3) list.simps(9))
  have "length ([]::aws_xml_attribute list) + length r \<le> attributes_size"
    using lo o by (simp add: split_scratch_size_def attributes_size_def)
  from load_attributes_strings [OF rb this]
  have la: "map (attribute_strings buf) (s_load_attributes buf r []) =
              List.map_filter attribute_of_token (tl ?toks)"
    by (simp add: rm)
  show ?thesis
  proof (cases r)
    case Nil
    then have "tl ?toks = []" using rm by simp
    with out o Nil o0 hb ob assms(2) show ?thesis
      by (simp add: s_load_node_decl_def cursor_at_def List.map_filter_def)
  next
    case (Cons o1 r')
    with out o o0 hb ob la show ?thesis
      by (simp add: s_load_node_decl_def cursor_at_def)
  qed
qed

section \<open>Attributes of a declaration\<close>

lemmas decl_eval =
  s_load_node_decl_def aws_byte_cursor_split_on_char_def cursor_in_bounds_def cursor_bytes_def
  split_scratch_size_def attributes_size_def cursor_at_def ZERO_CURSOR_def
  array_list_push_back_def aws_byte_cursor_trim_pred_def aws_byte_cursor_left_trim_pred_def
  aws_byte_cursor_right_trim_pred_def s_trim_quotes_fn_def Let_def

lemma map_filter_member:
  "x \<in> set xs \<Longrightarrow> f x = Some y \<Longrightarrow> y \<in> set (List.map_filter f xs)"
  by (force simp: List.map_filter_def)

lemma attribute_of_token_no_equals:
  "CHR ''='' \<notin> set t \<Longrightarrow> attribute_of_token t = Some (t, [])"
  by (simp add: attribute_of_token_def split_on_no_delim)

lemma attribute_of_token_pair:
  "CHR ''='' \<notin> set n \<Longrightarrow> CHR ''='' \<notin> set v \<Longrightarrow>
   attribute_of_token (n @ ''='' @ v) = Some (n, trim_double_quotes v)"
  by (simp add: attribute_of_token_def split_on_append split_on_no_delim)

lemma dropWhile_none: "\<forall>x\<in>set xs. \<not> P x \<Longrightarrow> dropWhile P xs = xs"
  by (cases xs) auto

lemma trim_double_quotes_none:
  "CHR 0x22 \<notin> set u \<Longrightarrow> trim_double_quotes u = u"
proof -
  assume a: "CHR 0x22 \<notin> set u"
  then have 1: "dropWhile (\<lambda>c. c = CHR 0x22) u = u" by (intro dropWhile_none) auto
  from a have 2: "dropWhile (\<lambda>c. c = CHR 0x22) (rev u) = rev u" by (intro dropWhile_none) auto
  show ?thesis by (simp add: trim_double_quotes_def 1 2)
qed

lemma trim_double_quotes_quoted:
  "CHR 0x22 \<notin> set u \<Longrightarrow> trim_double_quotes ([CHR 0x22] @ u @ [CHR 0x22]) = u"
proof -
  assume a: "CHR 0x22 \<notin> set u"
  then have 1: "dropWhile (\<lambda>c. c = CHR 0x22) u = u" by (intro dropWhile_none) auto
  from a have 2: "dropWhile (\<lambda>c. c = CHR 0x22) (rev u) = rev u" by (intro dropWhile_none) auto
  show ?thesis
  proof (cases u)
    case Nil
    then show ?thesis by (simp add: trim_double_quotes_def)
  next
    case (Cons x xs)
    with a have x: "x \<noteq> CHR 0x22" by auto
    have "dropWhile (\<lambda>c. c = CHR 0x22) ([CHR 0x22] @ u @ [CHR 0x22]) = u @ [CHR 0x22]"
      using Cons x by simp
    moreover have "dropWhile (\<lambda>c. c = CHR 0x22) (rev (u @ [CHR 0x22])) = rev u"
      using 2 by simp
    ultimately show ?thesis by (simp only: trim_double_quotes_def rev_rev_ident)
  qed
qed

text \<open>
  C5, as amended. When a declaration is split on spaces into no more tokens than the scratch
  array holds, loading it raises no error, the first token is the node's name, and every token
  after the first that does not contain \<open>=\<close> is kept, not dropped: it contributes an attribute
  whose name is the whole token and whose value is empty. The attribute list is, token by
  token, what \<open>attribute_of_token\<close> gives.
\<close>

theorem tokens_without_equals_become_attributes:
  assumes "cursor_in_bounds buf decl_body"
    and "attributes node = []"
    and "length (split_on CHR '' '' (cursor_bytes buf decl_body)) \<le> split_scratch_size"
  shows "\<exists>node'. s_load_node_decl buf decl_body node = Inr node' \<and>
           cursor_bytes buf (name node') = hd (split_on CHR '' '' (cursor_bytes buf decl_body)) \<and>
           map (attribute_strings buf) (attributes node') =
             List.map_filter attribute_of_token (tl (split_on CHR '' '' (cursor_bytes buf decl_body))) \<and>
           (\<forall>t \<in> set (tl (split_on CHR '' '' (cursor_bytes buf decl_body))).
              CHR ''='' \<notin> set t \<longrightarrow>
              attribute_of_token t = Some (t, []) \<and>
              (t, []) \<in> set (map (attribute_strings buf) (attributes node')))"
proof -
  from s_load_node_decl_ok [OF assms] obtain node' where
    n: "s_load_node_decl buf decl_body node = Inr node'"
       "cursor_bytes buf (name node') = hd (split_on CHR '' '' (cursor_bytes buf decl_body))"
       "map (attribute_strings buf) (attributes node') =
          List.map_filter attribute_of_token (tl (split_on CHR '' '' (cursor_bytes buf decl_body)))"
    by blast
  have "\<forall>t \<in> set (tl (split_on CHR '' '' (cursor_bytes buf decl_body))).
              CHR ''='' \<notin> set t \<longrightarrow>
              attribute_of_token t = Some (t, []) \<and>
              (t, []) \<in> set (map (attribute_strings buf) (attributes node'))"
  proof (intro ballI impI conjI)
    fix t
    assume t: "t \<in> set (tl (split_on CHR '' '' (cursor_bytes buf decl_body)))"
      and e: "CHR ''='' \<notin> set t"
    show a: "attribute_of_token t = Some (t, [])"
      using e by (rule attribute_of_token_no_equals)
    show "(t, []) \<in> set (map (attribute_strings buf) (attributes node'))"
      unfolding n(3) using t a by (rule map_filter_member)
  qed
  with n show ?thesis by blast
qed


theorem tokens_without_equals_become_attributes_witness:
  "cursor_in_bounds ''a b k=v'' \<lparr>len = 7, ptr = 0\<rparr> \<and>
   length (split_on CHR '' '' (cursor_bytes ''a b k=v'' \<lparr>len = 7, ptr = 0\<rparr>)) \<le> split_scratch_size \<and>
   (\<exists>node'. s_load_node_decl ''a b k=v'' \<lparr>len = 7, ptr = 0\<rparr>
               \<lparr>name = ZERO_CURSOR, attributes = [], doc_at_body = ZERO_CURSOR\<rparr> = Inr node' \<and>
             cursor_bytes ''a b k=v'' (name node') = ''a'' \<and>
             map (attribute_strings ''a b k=v'') (attributes node') = [(''b'', []), (''k'', ''v'')])"
proof -
  let ?buf = "''a b k=v''"
  let ?d = "\<lparr>len = 7, ptr = 0\<rparr>"
  let ?n = "\<lparr>name = ZERO_CURSOR, attributes = [], doc_at_body = ZERO_CURSOR\<rparr>"
  have h1: "cursor_in_bounds ?buf ?d" by (simp add: cursor_in_bounds_def)
  have h2: "attributes ?n = []" by simp
  have bs: "cursor_bytes ?buf ?d = ?buf" by (simp add: cursor_bytes_def)
  have toks: "split_on CHR '' '' (cursor_bytes ?buf ?d) = [''a'', ''b'', ''k=v'']"
    by (simp add: bs)
  have h3: "length (split_on CHR '' '' (cursor_bytes ?buf ?d)) \<le> split_scratch_size"
    by (simp add: toks split_scratch_size_def)
  have mf: "List.map_filter attribute_of_token [''b'', ''k=v''] = [(''b'', []), (''k'', ''v'')]"
    by (simp add: attribute_of_token_def trim_double_quotes_def)
  note inst = tokens_without_equals_become_attributes [OF h1 h2 h3]
  have "\<exists>node'. s_load_node_decl ?buf ?d ?n = Inr node' \<and>
             cursor_bytes ?buf (name node') = ''a'' \<and>
             map (attribute_strings ?buf) (attributes node') = [(''b'', []), (''k'', ''v'')]"
  proof -
    from inst obtain node' where n: "s_load_node_decl ?buf ?d ?n = Inr node'"
      "cursor_bytes ?buf (name node') = hd (split_on CHR '' '' (cursor_bytes ?buf ?d))"
      "map (attribute_strings ?buf) (attributes node') =
         List.map_filter attribute_of_token (tl (split_on CHR '' '' (cursor_bytes ?buf ?d)))"
      by (elim exE conjE)
    have "cursor_bytes ?buf (name node') = ''a''"
      using n(2) by (simp only: toks list.sel)
    moreover have "map (attribute_strings ?buf) (attributes node') = [(''b'', []), (''k'', ''v'')]"
      using n(3) by (simp only: toks mf list.sel)
    ultimately show ?thesis using n(1) by (intro exI conjI)
  qed
  then show ?thesis by (intro conjI h1 h3)
qed




text \<open>The claim as stated fails: in the declaration \<open>a b\<close> the token \<open>b\<close> has no \<open>=\<close>, and
  the node gets one attribute, named \<open>b\<close>, with an empty value.\<close>

theorem token_without_equals_counterexample:
  "s_load_node_decl ''a b'' \<lparr>len = 3, ptr = 0\<rparr>
       \<lparr>name = ZERO_CURSOR, attributes = [], doc_at_body = ZERO_CURSOR\<rparr> =
     Inr \<lparr>name = \<lparr>len = 1, ptr = 0\<rparr>,
          attributes = [\<lparr>attr_name = \<lparr>len = 1, ptr = 2\<rparr>, attr_value = \<lparr>len = 0, ptr = 0\<rparr>\<rparr>],
          doc_at_body = ZERO_CURSOR\<rparr>"
  by (simp add: decl_eval)

text \<open>
  C6, as amended. For every attribute token \<open>name=value\<close> of a node declaration, the node
  has an attribute \<open>name\<close> whose value is \<open>value\<close> without the double-quote characters at its
  two ends, so \<open>k="v"\<close> yields \<open>k\<close> mapped to \<open>v\<close>; a value without double quotes is
  delivered as it is.
\<close>

theorem attribute_value_double_quotes_trimmed:
  assumes "cursor_in_bounds buf decl_body"
    and "attributes node = []"
    and "length (split_on CHR '' '' (cursor_bytes buf decl_body)) \<le> split_scratch_size"
    and "n @ ''='' @ v \<in> set (tl (split_on CHR '' '' (cursor_bytes buf decl_body)))"
    and "CHR ''='' \<notin> set n" and "CHR ''='' \<notin> set v"
  shows "\<exists>node'. s_load_node_decl buf decl_body node = Inr node' \<and>
           (n, trim_double_quotes v) \<in> set (map (attribute_strings buf) (attributes node')) \<and>
           (\<forall>u. CHR 0x22 \<notin> set u \<and> v = [CHR 0x22] @ u @ [CHR 0x22] \<longrightarrow>
                  trim_double_quotes v = u) \<and>
           (CHR 0x22 \<notin> set v \<longrightarrow> trim_double_quotes v = v)"
proof -
  from s_load_node_decl_ok [OF assms(1,2,3)] obtain node' where
    n: "s_load_node_decl buf decl_body node = Inr node'"
       "map (attribute_strings buf) (attributes node') =
          List.map_filter attribute_of_token (tl (split_on CHR '' '' (cursor_bytes buf decl_body)))"
    by blast
  have "(n, trim_double_quotes v) \<in> set (map (attribute_strings buf) (attributes node'))"
    unfolding n(2)
    by (rule map_filter_member [OF assms(4)]) (rule attribute_of_token_pair [OF assms(5,6)])
  moreover have "\<forall>u. CHR 0x22 \<notin> set u \<and> v = [CHR 0x22] @ u @ [CHR 0x22] \<longrightarrow>
                  trim_double_quotes v = u"
    using trim_double_quotes_quoted by blast
  moreover have "CHR 0x22 \<notin> set v \<longrightarrow> trim_double_quotes v = v"
    using trim_double_quotes_none by blast
  ultimately show ?thesis using n(1) by (intro exI conjI)
qed



theorem attribute_value_double_quotes_trimmed_witness:
  "cursor_in_bounds (''a k='' @ [CHR 0x22] @ ''v'' @ [CHR 0x22]) \<lparr>len = 7, ptr = 0\<rparr> \<and>
   ''k'' @ ''='' @ ([CHR 0x22] @ ''v'' @ [CHR 0x22]) \<in>
     set (tl (split_on CHR '' '' (cursor_bytes (''a k='' @ [CHR 0x22] @ ''v'' @ [CHR 0x22])
                                     \<lparr>len = 7, ptr = 0\<rparr>))) \<and>
   (\<exists>node'. s_load_node_decl (''a k='' @ [CHR 0x22] @ ''v'' @ [CHR 0x22]) \<lparr>len = 7, ptr = 0\<rparr>
               \<lparr>name = ZERO_CURSOR, attributes = [], doc_at_body = ZERO_CURSOR\<rparr> = Inr node' \<and>
             (''k'', ''v'') \<in> set (map (attribute_strings (''a k='' @ [CHR 0x22] @ ''v'' @ [CHR 0x22]))
                                   (attributes node')))"
proof -
  let ?buf = "''a k='' @ [CHR 0x22] @ ''v'' @ [CHR 0x22]"
  let ?d = "\<lparr>len = 7, ptr = 0\<rparr>"
  let ?n = "\<lparr>name = ZERO_CURSOR, attributes = [], doc_at_body = ZERO_CURSOR\<rparr>"
  let ?v = "[CHR 0x22] @ ''v'' @ [CHR 0x22]"
  have h1: "cursor_in_bounds ?buf ?d" by (simp add: cursor_in_bounds_def)
  have h2: "attributes ?n = []" by simp
  have bs: "cursor_bytes ?buf ?d = ?buf" by (simp add: cursor_bytes_def)
  have toks: "split_on CHR '' '' (cursor_bytes ?buf ?d) = [''a'', ''k'' @ ''='' @ ?v]"
    by (simp add: cursor_bytes_def)
  have h3: "length (split_on CHR '' '' (cursor_bytes ?buf ?d)) \<le> split_scratch_size"
    by (simp add: cursor_bytes_def split_scratch_size_def)
  have h4: "''k'' @ ''='' @ ?v \<in> set (tl (split_on CHR '' '' (cursor_bytes ?buf ?d)))"
    by (simp add: cursor_bytes_def)
  have h5: "CHR ''='' \<notin> set ''k''" by simp
  have h6: "CHR ''='' \<notin> set ?v" by simp
  have q: "CHR 0x22 \<notin> set ''v''" by simp
  note inst = attribute_value_double_quotes_trimmed [OF h1 h2 h3 h4 h5 h6]
  have "\<exists>node'. s_load_node_decl ?buf ?d ?n = Inr node' \<and>
             (''k'', ''v'') \<in> set (map (attribute_strings ?buf) (attributes node'))"
  proof -
    from inst obtain node' where n: "s_load_node_decl ?buf ?d ?n = Inr node'"
      "(''k'', trim_double_quotes ?v) \<in> set (map (attribute_strings ?buf) (attributes node'))"
      "\<forall>u. CHR 0x22 \<notin> set u \<and> ?v = [CHR 0x22] @ u @ [CHR 0x22] \<longrightarrow> trim_double_quotes ?v = u"
      by (elim exE conjE)
    from n(3) q have "trim_double_quotes ?v = ''v''" by blast
    with n(2) have "(''k'', ''v'') \<in> set (map (attribute_strings ?buf) (attributes node'))"
      by simp
    with n(1) show ?thesis by (intro exI conjI)
  qed
  then show ?thesis by (intro conjI h1 h4)
qed

text \<open>The claim as stated fails for single quotes: the declaration \<open>a k='v'\<close> yields the
  value \<open>'v'\<close>, quotes included.\<close>

theorem single_quotes_not_trimmed_counterexample:
  "s_load_node_decl (''a k='' @ [CHR 0x27] @ ''v'' @ [CHR 0x27]) \<lparr>len = 7, ptr = 0\<rparr>
       \<lparr>name = ZERO_CURSOR, attributes = [], doc_at_body = ZERO_CURSOR\<rparr> =
     Inr \<lparr>name = \<lparr>len = 1, ptr = 0\<rparr>,
          attributes = [\<lparr>attr_name = \<lparr>len = 1, ptr = 2\<rparr>, attr_value = \<lparr>len = 3, ptr = 4\<rparr>\<rparr>],
          doc_at_body = ZERO_CURSOR\<rparr> \<and>
   cursor_bytes (''a k='' @ [CHR 0x27] @ ''v'' @ [CHR 0x27]) \<lparr>len = 3, ptr = 4\<rparr> =
     [CHR 0x27, CHR ''v'', CHR 0x27]"
  by (simp add: decl_eval)

section \<open>The closing-tag matcher\<close>

lemma buffer_ok_SIZE_MAX: "buffer_ok buf \<Longrightarrow> n \<le> length buf \<Longrightarrow> n + 3 \<le> SIZE_MAX"
  by (simp add: buffer_ok_def SIZE_MAX_def)

lemma buffer_ok_len:
  "buffer_ok buf \<Longrightarrow> cursor_in_bounds buf c \<Longrightarrow> len c \<le> SIZE_MAX div 2"
  by (simp add: buffer_ok_def cursor_in_bounds_def)

lemma cmp_buf_eq:
  "length nm \<le> 256 \<Longrightarrow>
   aws_byte_buf_append 259 (aws_byte_buf_append 259 (aws_byte_buf_append 259 [] ''</'') nm) ''>'' =
     ''</'' @ nm @ ''>''"
  by (simp add: aws_byte_buf_append_def)

lemma closing_tag_cases:
  assumes ok: "buffer_ok buf"
    and nb: "cursor_in_bounds buf (name node)"
    and db: "cursor_in_bounds buf (doc_at_body node)"
  shows "s_advance_to_closing_tag buf parser node =
     (if 256 < len (name node) then (Inl AWS_ERROR_MALFORMED_INPUT_STRING, parser)
      else case first_match (''</'' @ cursor_bytes buf (name node) @ ''>'')
                  (cursor_bytes buf (doc_at_body node)) of
             None \<Rightarrow> (Inl AWS_ERROR_MALFORMED_INPUT_STRING, parser)
           | Some i \<Rightarrow>
               (Inr \<lparr>len = i, ptr = ptr (doc_at_body node)\<rparr>,
                parser\<lparr>doc := aws_byte_cursor_advance (doc parser)
                                 (i + (len (name node) + 3))\<rparr>))"
proof -
  let ?nm = "cursor_bytes buf (name node)"
  let ?body = "cursor_bytes buf (doc_at_body node)"
  let ?to_find = "''</'' @ ?nm @ ''>''"
  have ln: "length ?nm = len (name node)" using nb by (rule length_cursor_bytes)
  have lb: "length ?body = len (doc_at_body node)" using db by (rule length_cursor_bytes)
  have nle: "len (name node) \<le> length buf" using nb by (simp add: cursor_in_bounds_def)
  have ble: "len (doc_at_body node) \<le> length buf" using db by (simp add: cursor_in_bounds_def)
  have cl: "to_size_t (int (len (name node)) + 3) = len (name node) + 3"
    using to_size_t_nat [of "len (name node) + 3"] buffer_ok_SIZE_MAX [OF ok nle] by simp
  have lf: "length ?to_find = len (name node) + 3" using ln by simp
  show ?thesis
  proof (cases "256 < len (name node)")
    case True
    then show ?thesis by (simp add: s_advance_to_closing_tag_def cl Let_def)
  next
    case small: False
    then have cmp: "aws_byte_buf_append 259 (aws_byte_buf_append 259
                      (aws_byte_buf_append 259 [] ''</'') ?nm) ''>'' = ?to_find"
      using ln by (intro cmp_buf_eq) simp
    show ?thesis
    proof (cases "first_match ?to_find ?body")
      case None
      show ?thesis
        using small None
        by (simp add: s_advance_to_closing_tag_def cl Let_def cmp
            aws_byte_cursor_find_exact_def)
    next
      case (Some i)
      have ne: "?to_find \<noteq> []" by simp
      from first_match_bound [OF Some ne] have ib: "i + (len (name node) + 3) \<le> len (doc_at_body node)"
        using lf lb by simp
      have i1: "to_size_t (int i) = i"
        using to_size_t_nat [of i] ib ble ok by (simp add: buffer_ok_def SIZE_MAX_def)
      have "i + (len (name node) + 3) \<le> SIZE_MAX"
        using ib ble ok by (simp add: buffer_ok_def SIZE_MAX_def)
      from to_size_t_nat [OF this]
      have i2: "to_size_t (int i + (3 + int (len (name node)))) = i + (len (name node) + 3)"
        by (simp add: add.commute add.left_commute)
      have fe: "aws_byte_cursor_find_exact buf (doc_at_body node) ?to_find =
                  Inr \<lparr>len = len (doc_at_body node) - i, ptr = ptr (doc_at_body node) + i\<rparr>"
        using Some ib by (simp add: aws_byte_cursor_find_exact_def ln)
      have g1: "\<not> len (doc_at_body node) < len (name node) + 3" using ib by simp
      have g2: "\<not> 259 < len (name node) + 3" using small by simp
      show ?thesis
        unfolding s_advance_to_closing_tag_def cl Let_def cmp fe
        using small Some g1 g2
        by (simp add: i1 i2 ln)
    qed
  qed
qed

text \<open>
  C4. \<open>node_as_body\<close> fails with MalformedInput exactly when the closing tag cannot be
  located: when the node's name is longer than 256 bytes, or when \<open></name>\<close> does not occur in
  the document from the node's body on. The failure is a returned value; in every other case
  a body is returned.
\<close>

theorem node_as_body_malformed_iff:
  assumes "buffer_ok buf"
    and "cursor_in_bounds buf (name node)"
    and "cursor_in_bounds buf (doc_at_body node)"
  shows "(fst (aws_xml_node_as_body buf parser node) = Inl AWS_ERROR_MALFORMED_INPUT_STRING \<longleftrightarrow>
            256 < len (name node) \<or>
            \<not> sublist (''</'' @ cursor_bytes buf (name node) @ ''>'')
                  (cursor_bytes buf (doc_at_body node))) \<and>
         ((\<exists>body. fst (aws_xml_node_as_body buf parser node) = Inr body) \<longleftrightarrow>
            len (name node) \<le> 256 \<and>
            sublist (''</'' @ cursor_bytes buf (name node) @ ''>'')
                  (cursor_bytes buf (doc_at_body node)))"
proof -
  let ?to_find = "''</'' @ cursor_bytes buf (name node) @ ''>''"
  let ?body = "cursor_bytes buf (doc_at_body node)"
  have ne: "?to_find \<noteq> []" by simp
  note fm = first_match_None_sublist [OF ne, of ?body]
  show ?thesis
  proof (cases "first_match ?to_find ?body")
    case None
    with fm have "\<not> sublist ?to_find ?body" by simp
    with None show ?thesis
      by (simp add: aws_xml_node_as_body_def closing_tag_cases [OF assms])
  next
    case (Some i)
    with fm have "sublist ?to_find ?body" by simp
    with Some show ?thesis
      by (simp add: aws_xml_node_as_body_def closing_tag_cases [OF assms])
  qed
qed

theorem node_as_body_malformed_iff_witness:
  "buffer_ok ''<a>text'' \<and>
   cursor_in_bounds ''<a>text'' \<lparr>len = 1, ptr = 1\<rparr> \<and>
   cursor_in_bounds ''<a>text'' \<lparr>len = 4, ptr = 3\<rparr> \<and>
   \<not> sublist ''</a>'' ''text'' \<and>
   fst (aws_xml_node_as_body ''<a>text'' \<lparr>doc = \<lparr>len = 4, ptr = 3\<rparr>, cb_stack = []\<rparr>
          \<lparr>name = \<lparr>len = 1, ptr = 1\<rparr>, attributes = [], doc_at_body = \<lparr>len = 4, ptr = 3\<rparr>\<rparr>) =
     Inl AWS_ERROR_MALFORMED_INPUT_STRING"
proof -
  let ?buf = "''<a>text''"
  let ?node = "\<lparr>name = \<lparr>len = 1, ptr = 1\<rparr>, attributes = [], doc_at_body = \<lparr>len = 4, ptr = 3\<rparr>\<rparr>"
  let ?p = "\<lparr>doc = \<lparr>len = 4, ptr = 3\<rparr>, cb_stack = []\<rparr>"
  have h1: "buffer_ok ?buf" by (simp add: buffer_ok_def SIZE_MAX_def)
  have h2: "cursor_in_bounds ?buf (name ?node)" by (simp add: cursor_in_bounds_def)
  have h3: "cursor_in_bounds ?buf (doc_at_body ?node)" by (simp add: cursor_in_bounds_def)
  have ns: "\<not> sublist ''</a>'' ''text''" by (simp add: sublist_Cons_right)
  have b1: "cursor_bytes ?buf (name ?node) = ''a''" by (simp add: cursor_bytes_def)
  have b2: "cursor_bytes ?buf (doc_at_body ?node) = ''text''" by (simp add: cursor_bytes_def)
  note inst = node_as_body_malformed_iff [OF h1 h2 h3, of ?p, THEN conjunct1]
  have "fst (aws_xml_node_as_body ?buf ?p ?node) = Inl AWS_ERROR_MALFORMED_INPUT_STRING"
    unfolding inst b1 b2 using ns by simp
  with h1 h2 h3 ns show ?thesis by simp
qed

section \<open>The preamble loop and the sibling walk\<close>

lemma preamble_decl_shape:
  assumes "preamble_decl b"
  shows "\<exists>lead q body. b = lead @ CHR ''<'' # q # body @ [CHR ''>''] \<and>
           CHR ''<'' \<notin> set lead \<and> CHR ''>'' \<notin> set lead \<and>
           (q = CHR ''?'' \<or> q = CHR ''!'') \<and> CHR ''>'' \<notin> set body"
proof -
  define lead where "lead = takeWhile (\<lambda>c. c \<noteq> CHR ''<'') b"
  define r where "r = dropWhile (\<lambda>c. c \<noteq> CHR ''<'') b"
  from assms have p: "CHR ''>'' \<notin> set lead" "3 \<le> length r"
    "r ! 1 = CHR ''?'' \<or> r ! 1 = CHR ''!''" "last r = CHR ''>''"
    "CHR ''>'' \<notin> set (butlast (drop 2 r))"
    by (simp_all add: preamble_decl_def Let_def lead_def r_def)
  have b: "b = lead @ r" by (simp add: lead_def r_def)
  have l: "CHR ''<'' \<notin> set lead"
    unfolding lead_def using set_takeWhileD by fastforce
  from p(2) obtain c q r' where r3: "r = c # q # r'" and ne: "r' \<noteq> []"
    by (cases r; cases "tl r"; cases "tl (tl r)") auto
  have "r \<noteq> []" using r3 by simp
  then have "\<not> (hd r \<noteq> CHR ''<'')" unfolding r_def by (rule hd_dropWhile)
  then have c: "c = CHR ''<''" using r3 by simp
  have lr: "last r' = CHR ''>''" using p(4) r3 ne by simp
  have "r' = butlast r' @ [last r']" using ne by simp
  then have r': "r' = butlast r' @ [CHR ''>'']" using lr by simp
  have nb: "CHR ''>'' \<notin> set (butlast r')" using p(5) r3 by simp
  have q: "q = CHR ''?'' \<or> q = CHR ''!''" using p(3) r3 by simp
  have "b = lead @ CHR ''<'' # q # butlast r' @ [CHR ''>'']"
    using b r3 c r' by simp
  with l p(1) q nb show ?thesis by blast
qed

lemma bytes_nonempty_len:
  "cursor_in_bounds buf c \<Longrightarrow> cursor_bytes buf c = x # xs \<Longrightarrow> len c = Suc (length xs)"
  using length_cursor_bytes [of buf c] by simp

lemma to_size_t_zero: "to_size_t 0 = 0"
  by (simp add: to_size_t_def)

lemma to_size_t_self_diff: "to_size_t (int a - int a) = 0"
  by (simp add: to_size_t_def)

lemma parse_loop_preamble_step:
  assumes ib: "cursor_in_bounds buf (doc p)"
    and sm: "len (doc p) \<le> SIZE_MAX div 2"
    and bs: "cursor_bytes buf (doc p) = lead @ CHR ''<'' # q # body @ CHR ''>'' # rest"
    and l1: "CHR ''<'' \<notin> set lead" and l2: "CHR ''>'' \<notin> set lead"
    and q: "q = CHR ''?'' \<or> q = CHR ''!''"
    and nb: "CHR ''>'' \<notin> set body"
  shows "aws_xml_parser_parse_loop buf p =
         aws_xml_parser_parse_loop buf
           (p\<lparr>doc := \<lparr>len = len (doc p) - (length lead + length body + 3),
                        ptr = ptr (doc p) + (length lead + length body + 3)\<rparr>\<rparr>)"
proof -
  let ?c = "doc p"
  let ?k = "length lead"
  have ln: "len ?c = ?k + length body + 3 + length rest"
    using length_cursor_bytes [OF ib] by (simp add: bs)
  have "index_of CHR ''<'' (lead @ CHR ''<'' # (q # body @ CHR ''>'' # rest)) = Some ?k"
    using l1 by (rule index_of_append)
  then have m1: "memchr buf (ptr ?c) CHR ''<'' (len ?c) = Some (ptr ?c + ?k)"
    by (simp add: memchr_bytes bs)
  have "index_of CHR ''>'' ((lead @ CHR ''<'' # q # body) @ CHR ''>'' # rest) =
          Some (length (lead @ CHR ''<'' # q # body))"
    by (rule index_of_append) (use q nb l2 in auto)
  then have m2: "memchr buf (ptr ?c) CHR ''>'' (len ?c) = Some (ptr ?c + (?k + length body + 2))"
    by (simp add: memchr_bytes bs)
  have "read_byte buf (ptr ?c + (?k + 1)) =
          Some ((lead @ CHR ''<'' # q # body @ CHR ''>'' # rest) ! (?k + 1))"
    by (rule read_byte_bytes [OF bs]) simp
  then have rb: "read_byte buf (ptr ?c + ?k + 1) = Some q"
    by (simp add: nth_append add.assoc)
  have d1: "to_size_t (int ?k) = ?k"
    using to_size_t_nat [of ?k] ln sm by (simp add: SIZE_MAX_def)
  have a1: "aws_byte_cursor_advance ?c ?k = \<lparr>len = len ?c - ?k, ptr = ptr ?c + ?k\<rparr>"
    by (rule advance_eq) (use ln sm in auto)
  have "length body + 2 < SIZE_MAX" using ln sm by (simp add: SIZE_MAX_def)
  then have adv: "to_size_t (int (ptr ?c + (?k + length body + 2)) - int (ptr ?c + ?k) + 1) =
                    length body + 3"
    using to_size_t_diff1 [of "ptr ?c + ?k" "ptr ?c + (?k + length body + 2)"] by simp
  have a2: "aws_byte_cursor_advance \<lparr>len = len ?c - ?k, ptr = ptr ?c + ?k\<rparr> (length body + 3) =
            \<lparr>len = len ?c - (?k + length body + 3), ptr = ptr ?c + (?k + length body + 3)\<rparr>"
    using advance_eq [of "length body + 3" "\<lparr>len = len ?c - ?k, ptr = ptr ?c + ?k\<rparr>"] ln sm
    by (simp add: add.assoc)
  have pos: "len ?c \<noteq> 0" using ln by simp
  show ?thesis
    apply (subst aws_xml_parser_parse_loop.simps)
    using rb adv a2 q
    apply (simp add: pos m1 m2 Let_def d1 a1)
    done
qed

lemma cursor_eta: "\<lparr>len = len c, ptr = ptr c\<rparr> = (c::aws_byte_cursor)"
  by (cases c) simp

lemma parse_loop_preamble:
  assumes "cursor_in_bounds buf (doc p)"
    and "len (doc p) \<le> SIZE_MAX div 2"
    and "\<forall>b \<in> set pre. preamble_decl b"
    and "cursor_bytes buf (doc p) = concat pre @ rest"
  shows "aws_xml_parser_parse_loop buf p =
         aws_xml_parser_parse_loop buf
           (p\<lparr>doc := \<lparr>len = len (doc p) - length (concat pre),
                        ptr = ptr (doc p) + length (concat pre)\<rparr>\<rparr>)"
  using assms
proof (induction pre arbitrary: p)
  case Nil
  then show ?case by (simp add: cursor_eta)
next
  case (Cons b pre)
  from Cons.prems(3) have "preamble_decl b" by simp
  from preamble_decl_shape [OF this] obtain lead q body where
    b: "b = lead @ CHR ''<'' # q # body @ [CHR ''>'']" and q: "q = CHR ''?'' \<or> q = CHR ''!''"
    and l1: "CHR ''<'' \<notin> set lead" and l2: "CHR ''>'' \<notin> set lead"
    and nb: "CHR ''>'' \<notin> set body" by blast
  let ?k = "length lead + length body + 3"
  let ?p1 = "p\<lparr>doc := \<lparr>len = len (doc p) - ?k, ptr = ptr (doc p) + ?k\<rparr>\<rparr>"
  have bs: "cursor_bytes buf (doc p) = lead @ CHR ''<'' # q # body @ CHR ''>'' # (concat pre @ rest)"
    using Cons.prems(4) b by simp
  have lb: "length b = ?k" using b by simp
  have ln: "len (doc p) = ?k + length (concat pre @ rest)"
    using length_cursor_bytes [OF Cons.prems(1)] bs by simp
  have s1: "aws_xml_parser_parse_loop buf p = aws_xml_parser_parse_loop buf ?p1"
    by (rule parse_loop_preamble_step [OF Cons.prems(1,2) bs l1 l2 q nb])
  have i1: "cursor_in_bounds buf (doc ?p1)"
    using Cons.prems(1) ln by (simp add: cursor_in_bounds_def)
  have i2: "len (doc ?p1) \<le> SIZE_MAX div 2" using Cons.prems(2) by simp
  have i3: "\<forall>b \<in> set pre. preamble_decl b" using Cons.prems(3) by simp
  have "cursor_bytes buf (doc ?p1) = drop ?k (cursor_bytes buf (doc p))"
    using cursor_bytes_drop [of ?k "doc p" buf] ln by simp
  moreover have "lead @ CHR ''<'' # q # body @ CHR ''>'' # (concat pre @ rest) =
      (lead @ CHR ''<'' # q # body @ [CHR ''>'']) @ (concat pre @ rest)" by simp
  moreover have "length (lead @ CHR ''<'' # q # body @ [CHR ''>'']) = ?k" by simp
  ultimately have i4: "cursor_bytes buf (doc ?p1) = concat pre @ rest"
    unfolding bs by (metis append_eq_conv_conj)
  have "aws_xml_parser_parse_loop buf ?p1 =
        aws_xml_parser_parse_loop buf
          (?p1\<lparr>doc := \<lparr>len = len (doc ?p1) - length (concat pre),
                         ptr = ptr (doc ?p1) + length (concat pre)\<rparr>\<rparr>)"
    by (rule Cons.IH [OF i1 i2 i3 i4])
  with s1 show ?case by (simp add: lb add.assoc)
qed

lemma parse_loop_empty:
  "len (doc p) = 0 \<Longrightarrow> aws_xml_parser_parse_loop buf p = Some (Inr (), p)"
  by (subst aws_xml_parser_parse_loop.simps) simp

lemma parse_loop_malformed:
  assumes "cursor_in_bounds buf (doc p)"
    and "cursor_bytes buf (doc p) = rest" and "rest \<noteq> []"
    and "CHR ''<'' \<notin> set rest \<or> CHR ''>'' \<notin> set rest"
  shows "aws_xml_parser_parse_loop buf p = Some (Inl AWS_ERROR_MALFORMED_INPUT_STRING, p)"
proof -
  have "length rest = len (doc p)"
    using length_cursor_bytes [OF assms(1)] assms(2) by simp
  with assms(3) have pos: "len (doc p) \<noteq> 0" by (cases rest) auto
  have "memchr buf (ptr (doc p)) CHR ''<'' (len (doc p)) = None \<or>
        memchr buf (ptr (doc p)) CHR ''>'' (len (doc p)) = None"
    using assms(4) by (auto simp: memchr_bytes assms(2) index_of_None)
  then show ?thesis
    by (subst aws_xml_parser_parse_loop.simps) (auto simp: pos split: option.split)
qed

lemma parse_loop_element:
  assumes bs: "cursor_bytes buf (doc p) = lead @ CHR ''<'' # c # rest"
    and l1: "CHR ''<'' \<notin> set lead"
    and c1: "c \<noteq> CHR ''?''" and c2: "c \<noteq> CHR ''!''"
    and gt: "CHR ''>'' \<in> set (c # rest)"
    and ib: "cursor_in_bounds buf (doc p)"
    and sm: "len (doc p) \<le> SIZE_MAX div 2"
  shows "aws_xml_parser_parse_loop buf p =
           Some (Inr (), p\<lparr>doc := \<lparr>len = len (doc p) - length lead,
                                      ptr = ptr (doc p) + length lead\<rparr>\<rparr>)"
proof -
  let ?c = "doc p"
  let ?k = "length lead"
  have ln: "len ?c = ?k + 2 + length rest"
    using length_cursor_bytes [OF ib] by (simp add: bs)
  have pos: "len ?c \<noteq> 0" using ln by simp
  have "index_of CHR ''<'' (lead @ CHR ''<'' # (c # rest)) = Some ?k"
    using l1 by (rule index_of_append)
  then have m1: "memchr buf (ptr ?c) CHR ''<'' (len ?c) = Some (ptr ?c + ?k)"
    by (simp add: memchr_bytes bs)
  have "CHR ''>'' \<in> set (cursor_bytes buf ?c)"
    using gt by (auto simp add: bs)
  then have "index_of CHR ''>'' (cursor_bytes buf ?c) \<noteq> None"
    by (simp only: index_of_None not_not)
  then obtain j where m2: "memchr buf (ptr ?c) CHR ''>'' (len ?c) = Some j"
    by (auto simp: memchr_bytes)
  have "read_byte buf (ptr ?c + (?k + 1)) = Some ((lead @ CHR ''<'' # c # rest) ! (?k + 1))"
    by (rule read_byte_bytes [OF bs]) simp
  then have rb: "read_byte buf (ptr ?c + ?k + 1) = Some c"
    by (simp add: nth_append add.assoc)
  have d1: "to_size_t (int ?k) = ?k"
    using to_size_t_nat [of ?k] ln sm by (simp add: SIZE_MAX_def)
  have a1: "aws_byte_cursor_advance ?c ?k = \<lparr>len = len ?c - ?k, ptr = ptr ?c + ?k\<rparr>"
    by (rule advance_eq) (use ln sm in auto)
  show ?thesis
    apply (subst aws_xml_parser_parse_loop.simps)
    using rb c1 c2
    apply (simp add: pos m1 m2 Let_def d1 a1)
    done
qed

lemma next_sibling_element:
  assumes ib: "cursor_in_bounds buf (doc p)"
    and sm: "len (doc p) \<le> SIZE_MAX div 2"
    and bs: "cursor_bytes buf (doc p) = CHR ''<'' # decl @ CHR ''>'' # tail"
    and nd: "CHR ''>'' \<notin> set decl"
    and st: "cb_stack p = stack @ [e]"
  shows "s_node_next_sibling fns buf p w =
     (let p2 = p\<lparr>doc := \<lparr>len = length tail, ptr = ptr (doc p) + (length decl + 2)\<rparr>\<rparr>
      in case s_load_node_decl buf \<lparr>len = length decl, ptr = ptr (doc p) + 1\<rparr>
                \<lparr>name = ZERO_CURSOR, attributes = [], doc_at_body = doc p2\<rparr> of
           Inl err \<Rightarrow> Some (Inl err, p2, w)
         | Inr node \<Rightarrow>
             (case fns (cb e) p2 node (user_data e) w of
                None \<Rightarrow> None
              | Some (b, p3, w3) \<Rightarrow> Some (Inr (), p3, w3)))"
proof -
  let ?c = "doc p"
  have ln: "len ?c = length decl + 2 + length tail"
    using length_cursor_bytes [OF ib] by (simp add: bs)
  have m1: "memchr buf (ptr ?c) CHR ''<'' (len ?c) = Some (ptr ?c)"
    by (simp add: memchr_bytes bs)
  have "index_of CHR ''>'' ((CHR ''<'' # decl) @ CHR ''>'' # tail) = Some (length (CHR ''<'' # decl))"
    by (rule index_of_append) (use nd in auto)
  then have m2: "memchr buf (ptr ?c) CHR ''>'' (len ?c) = Some (ptr ?c + (length decl + 1))"
    by (simp add: memchr_bytes bs)
  have small: "length decl + 1 < SIZE_MAX" using ln sm by (simp add: SIZE_MAX_def)
  have nl: "to_size_t (int (ptr ?c + (length decl + 1)) - int (ptr ?c)) = length decl + 1"
    using to_size_t_diff [of "ptr ?c" "ptr ?c + (length decl + 1)"] small by simp
  have nl1: "to_size_t (int (length decl + 1) - 1) = length decl"
    using to_size_t_pred [of "length decl + 1"] small by simp
  have adv: "to_size_t (int (ptr ?c + (length decl + 1)) - int (ptr ?c) + 1) = length decl + 2"
    using to_size_t_diff1 [of "ptr ?c" "ptr ?c + (length decl + 1)"] small by simp
  have a2: "aws_byte_cursor_advance ?c (length decl + 2) =
            \<lparr>len = length tail, ptr = ptr ?c + (length decl + 2)\<rparr>"
    using advance_eq [of "length decl + 2" ?c] ln sm by simp
  have la: "last (stack @ [e]) = e" by simp
  have ne: "stack @ [e] \<noteq> []" by simp
  show ?thesis
    unfolding s_node_next_sibling_def
    using nl nl1 adv a2
    apply (simp add: m1 m2 Let_def to_size_t_self_diff to_size_t_zero advance_zero st
        split: sum.split)
    done
qed

section \<open>Parse\<close>

lemma parser_eta:
  "(p::aws_xml_parser)\<lparr>cb_stack := s, doc := d\<rparr> = \<lparr>doc = d, cb_stack = s\<rparr>"
  by (cases p) simp

lemma parse_after_preamble:
  assumes ok: "buffer_ok buf"
    and ib: "cursor_in_bounds buf (doc parser)"
    and pre: "\<forall>b \<in> set pre. preamble_decl b"
    and bs: "cursor_bytes buf (doc parser) = concat pre @ rest"
  defines "p1 \<equiv> \<lparr>doc = \<lparr>len = length rest, ptr = ptr (doc parser) + length (concat pre)\<rparr>,
                  cb_stack = []\<rparr>"
  shows "aws_xml_parser_parse_loop buf (parser\<lparr>cb_stack := []\<rparr>) = aws_xml_parser_parse_loop buf p1"
    and "cursor_in_bounds buf (doc p1)"
    and "cursor_bytes buf (doc p1) = rest"
    and "len (doc p1) \<le> SIZE_MAX div 2"
proof -
  let ?p0 = "parser\<lparr>cb_stack := []\<rparr>"
  let ?L = "length (concat pre)"
  have sm: "len (doc parser) \<le> SIZE_MAX div 2" using ok ib by (rule buffer_ok_len)
  have ln: "len (doc parser) = ?L + length rest"
    using length_cursor_bytes [OF ib] by (simp add: bs)
  have "aws_xml_parser_parse_loop buf ?p0 =
        aws_xml_parser_parse_loop buf
          (?p0\<lparr>doc := \<lparr>len = len (doc ?p0) - ?L, ptr = ptr (doc ?p0) + ?L\<rparr>\<rparr>)"
    by (rule parse_loop_preamble [where rest = rest]) (use ib sm pre bs in simp_all)
  moreover have "?p0\<lparr>doc := \<lparr>len = len (doc ?p0) - ?L, ptr = ptr (doc ?p0) + ?L\<rparr>\<rparr> = p1"
    unfolding p1_def using ln by (simp add: parser_eta)
  ultimately show "aws_xml_parser_parse_loop buf ?p0 = aws_xml_parser_parse_loop buf p1"
    by simp
  show "cursor_in_bounds buf (doc p1)"
    using ib ln by (simp add: p1_def cursor_in_bounds_def)
  have "cursor_bytes buf \<lparr>len = len (doc parser) - ?L, ptr = ptr (doc parser) + ?L\<rparr> =
          drop ?L (cursor_bytes buf (doc parser))"
    by (rule cursor_bytes_drop) (use ln in simp)
  then show "cursor_bytes buf (doc p1) = rest"
    using ln by (simp add: p1_def bs)
  show "len (doc p1) \<le> SIZE_MAX div 2" using sm ln by (simp add: p1_def)
qed

lemma parse_first_element:
  assumes ok: "buffer_ok buf"
    and ib: "cursor_in_bounds buf (doc parser)"
    and pre: "\<forall>b \<in> set pre. preamble_decl b"
    and bs: "cursor_bytes buf (doc parser) = concat pre @ lead @ CHR ''<'' # decl @ CHR ''>'' # tail"
    and l1: "CHR ''<'' \<notin> set lead"
    and nd: "CHR ''>'' \<notin> set decl"
    and n1: "take 1 decl \<noteq> ''?''" and n2: "take 1 decl \<noteq> ''!''"
    and cap: "length (split_on CHR '' '' decl) \<le> split_scratch_size"
  shows "\<exists>node.
           name node = \<lparr>len = length (takeWhile (\<lambda>x. x \<noteq> CHR '' '') decl),
                        ptr = ptr (doc parser) + length (concat pre) + length lead + 1\<rparr> \<and>
           cursor_in_bounds buf (name node) \<and>
           cursor_bytes buf (name node) = takeWhile (\<lambda>x. x \<noteq> CHR '' '') decl \<and>
           map (attribute_strings buf) (attributes node) =
             List.map_filter attribute_of_token (tl (split_on CHR '' '' decl)) \<and>
           doc_at_body node =
             \<lparr>len = length tail,
              ptr = ptr (doc parser) + length (concat pre) + length lead + length decl + 2\<rparr> \<and>
           cursor_in_bounds buf (doc_at_body node) \<and>
           cursor_bytes buf (doc_at_body node) = tail \<and>
           aws_xml_parser_parse fns buf parser f ud w =
             (case fns f \<lparr>doc = doc_at_body node, cb_stack = [\<lparr>cb = f, user_data = ud\<rparr>]\<rparr>
                     node ud w of
                None \<Rightarrow> None
              | Some (b, parser3, w3) \<Rightarrow> Some (Inr (), parser3, w3))"
proof -
  define rest where "rest = lead @ CHR ''<'' # decl @ CHR ''>'' # tail"
  define p1 where "p1 = \<lparr>doc = \<lparr>len = length rest, ptr = ptr (doc parser) + length (concat pre)\<rparr>,
                  cb_stack = ([]::cb_stack_data list)\<rparr>"
  have bs': "cursor_bytes buf (doc parser) = concat pre @ rest" using bs by (simp add: rest_def)
  note ap = parse_after_preamble [OF ok ib pre bs', folded p1_def]
  have r: "rest = lead @ CHR ''<'' # decl @ CHR ''>'' # tail" by (rule rest_def)
  obtain c rest' where cr: "decl @ CHR ''>'' # tail = c # rest'"
    by (cases "decl @ CHR ''>'' # tail") auto
  have c1: "c \<noteq> CHR ''?''" using cr n1 by (cases decl) auto
  have c2: "c \<noteq> CHR ''!''" using cr n2 by (cases decl) auto
  have c3: "CHR ''>'' \<in> set (c # rest')" using cr by (metis in_set_conv_decomp)
  have b1: "cursor_bytes buf (doc p1) = lead @ CHR ''<'' # c # rest'"
    using ap(3) r cr by simp
  define p1a where "p1a = p1\<lparr>doc := \<lparr>len = len (doc p1) - length lead,
                                      ptr = ptr (doc p1) + length lead\<rparr>\<rparr>"
  have loop: "aws_xml_parser_parse_loop buf (parser\<lparr>cb_stack := []\<rparr>) = Some (Inr (), p1a)"
    using ap(1) parse_loop_element [OF b1 l1 c1 c2 c3 ap(2) ap(4)] by (simp add: p1a_def)
  have ln0: "len (doc p1) = length lead + (length decl + 2 + length tail)"
    using length_cursor_bytes [OF ap(2)] ap(3) r by simp
  have ib1: "cursor_in_bounds buf (doc p1a)"
    using ap(2) ln0 by (simp add: p1a_def cursor_in_bounds_def)
  have sm1: "len (doc p1a) \<le> SIZE_MAX div 2" using ap(4) by (simp add: p1a_def)
  have "cursor_bytes buf \<lparr>len = len (doc p1) - length lead, ptr = ptr (doc p1) + length lead\<rparr> =
          drop (length lead) (cursor_bytes buf (doc p1))"
    by (rule cursor_bytes_drop) (use ln0 in simp)
  then have by1: "cursor_bytes buf (doc p1a) = CHR ''<'' # decl @ CHR ''>'' # tail"
    using ap(3) r by (simp add: p1a_def)
  let ?e = "\<lparr>cb = f, user_data = ud\<rparr>"
  let ?p1' = "p1a\<lparr>cb_stack := cb_stack p1a @ [?e]\<rparr>"
  have ps: "aws_xml_parser_parse fns buf parser f ud w = s_node_next_sibling fns buf ?p1' w"
    by (simp add: aws_xml_parser_parse_def loop)
  have b2: "cursor_bytes buf (doc ?p1') = CHR ''<'' # decl @ CHR ''>'' # tail"
    using by1 by simp
  have st: "cb_stack ?p1' = [] @ [?e]" by (simp add: p1_def p1a_def)
  let ?p2 = "?p1'\<lparr>doc := \<lparr>len = length tail, ptr = ptr (doc ?p1') + (length decl + 2)\<rparr>\<rparr>"
  let ?dc = "\<lparr>len = length decl, ptr = ptr (doc ?p1') + 1\<rparr>"
  let ?n0 = "\<lparr>name = ZERO_CURSOR, attributes = [], doc_at_body = doc ?p2\<rparr>"
  note ns = next_sibling_element [of buf ?p1' decl tail "[]" ?e fns w, simplified Let_def]
  have ln1: "len (doc p1a) = length decl + 2 + length tail"
    using ln0 by (simp add: p1a_def)
  have dib: "cursor_in_bounds buf ?dc"
    using ib1 ln1 by (simp add: cursor_in_bounds_def)
  have "cursor_bytes buf \<lparr>len = length decl, ptr = ptr (doc p1a) + 1\<rparr> =
          take (length decl) (drop 1 (cursor_bytes buf (doc p1a)))"
    by (rule cursor_bytes_sub) (use ln1 in simp)
  then have dbs: "cursor_bytes buf ?dc = decl" using by1 by simp
  have cap': "length (split_on CHR '' '' (cursor_bytes buf ?dc)) \<le> split_scratch_size"
    using cap dbs by simp
  have a0: "attributes ?n0 = []" by simp
  from s_load_node_decl_ok [OF dib a0 cap'] obtain node where
    nd1: "s_load_node_decl buf ?dc ?n0 = Inr node"
    and nd0: "name node = \<lparr>len = length (hd (split_on CHR '' '' (cursor_bytes buf ?dc))), ptr = ptr ?dc\<rparr>"
    and ndb: "cursor_in_bounds buf (name node)"
    and nd2: "cursor_bytes buf (name node) = hd (split_on CHR '' '' (cursor_bytes buf ?dc))"
    and nd3: "doc_at_body node = doc_at_body ?n0"
    and nd4: "map (attribute_strings buf) (attributes node) =
             List.map_filter attribute_of_token (tl (split_on CHR '' '' (cursor_bytes buf ?dc)))"
    by blast
  have p2: "?p2 = \<lparr>doc = doc_at_body node, cb_stack = [?e]\<rparr>"
    using nd3 by (simp add: p1_def p1a_def)
  have d3: "doc_at_body node = \<lparr>len = length tail,
                ptr = ptr (doc parser) + length (concat pre) + length lead + length decl + 2\<rparr>"
    using nd3 by (simp add: p1_def p1a_def)
  have d4: "cursor_in_bounds buf (doc_at_body node)"
    using d3 ap(2) ln0 by (simp add: cursor_in_bounds_def p1_def)
  have "cursor_bytes buf \<lparr>len = len (doc p1a) - (length decl + 2),
                          ptr = ptr (doc p1a) + (length decl + 2)\<rparr> =
          drop (length decl + 2) (cursor_bytes buf (doc p1a))"
    by (rule cursor_bytes_drop) (use ln1 in simp)
  moreover have "length rest = length lead + (length decl + 2 + length tail)"
    by (simp add: r)
  ultimately have d5: "cursor_bytes buf (doc_at_body node) = tail"
    using d3 ln1 by1 by (simp add: p1_def p1a_def add.assoc)
  have "s_node_next_sibling fns buf ?p1' w =
          (case fns f ?p2 node ud w of
             None \<Rightarrow> None
           | Some (b, parser3, w3) \<Rightarrow> Some (Inr (), parser3, w3))"
    using ns ib1 sm1 b2 nd st nd1 by simp
  with ps p2 have run: "aws_xml_parser_parse fns buf parser f ud w =
          (case fns f \<lparr>doc = doc_at_body node, cb_stack = [?e]\<rparr> node ud w of
             None \<Rightarrow> None
           | Some (b, parser3, w3) \<Rightarrow> Some (Inr (), parser3, w3))"
    by simp
  have nm: "cursor_bytes buf (name node) = takeWhile (\<lambda>x. x \<noteq> CHR '' '') decl"
    using nd2 dbs by (simp add: hd_split_on)
  have nc: "name node = \<lparr>len = length (takeWhile (\<lambda>x. x \<noteq> CHR '' '') decl),
                        ptr = ptr (doc parser) + length (concat pre) + length lead + 1\<rparr>"
    using nd0 dbs by (simp add: hd_split_on p1_def p1a_def)
  have at: "map (attribute_strings buf) (attributes node) =
             List.map_filter attribute_of_token (tl (split_on CHR '' '' decl))"
    using nd4 dbs by simp
  from nc ndb nm at d3 d4 d5 run show ?thesis by blast
qed

text \<open>
  C8. For every document that starts with bracketed regions opening with \<open><?\<close> or \<open><!\<close>
  (each ending at its first \<open>>\<close>, with or without text between them), parse discards them by
  advancing past their \<open>>\<close>, and the first node decoded and handed to the root handler is the
  first real element: its name is the first token of the declaration that follows the
  preamble, and its body starts after that declaration's \<open>>\<close>. When what follows the preamble
  is not empty and has no \<open><\<close> or no \<open>>\<close>, parse returns MalformedInput and no handler is
  called.
\<close>

theorem parse_skips_preamble:
  assumes "buffer_ok buf"
    and "cursor_in_bounds buf (doc parser)"
    and "\<forall>b \<in> set pre. preamble_decl b"
    and "cursor_bytes buf (doc parser) = concat pre @ rest"
  shows "(\<forall>lead decl tail.
            rest = lead @ ''<'' @ decl @ ''>'' @ tail \<and> CHR ''<'' \<notin> set lead \<and>
            CHR ''>'' \<notin> set decl \<and> take 1 decl \<noteq> ''?'' \<and> take 1 decl \<noteq> ''!'' \<and>
            length (split_on CHR '' '' decl) \<le> split_scratch_size \<longrightarrow>
            (\<exists>node.
               cursor_bytes buf (name node) = takeWhile (\<lambda>x. x \<noteq> CHR '' '') decl \<and>
               doc_at_body node =
                 \<lparr>len = length tail,
                  ptr = ptr (doc parser) + length (concat pre) + length lead + length decl + 2\<rparr> \<and>
               aws_xml_parser_parse fns buf parser f ud w =
                 (case fns f \<lparr>doc = doc_at_body node, cb_stack = [\<lparr>cb = f, user_data = ud\<rparr>]\<rparr>
                         node ud w of
                    None \<Rightarrow> None
                  | Some (b, parser3, w3) \<Rightarrow> Some (Inr (), parser3, w3)))) \<and>
         (rest \<noteq> [] \<and> (CHR ''<'' \<notin> set rest \<or> CHR ''>'' \<notin> set rest) \<longrightarrow>
            aws_xml_parser_parse fns buf parser f ud w =
              Some (Inl AWS_ERROR_MALFORMED_INPUT_STRING,
                    \<lparr>doc = \<lparr>len = length rest, ptr = ptr (doc parser) + length (concat pre)\<rparr>,
                     cb_stack = []\<rparr>, w))"
proof -
  define p1 where "p1 = \<lparr>doc = \<lparr>len = length rest, ptr = ptr (doc parser) + length (concat pre)\<rparr>,
                  cb_stack = ([]::cb_stack_data list)\<rparr>"
  note ap = parse_after_preamble [OF assms, folded p1_def]
  have A: "\<exists>node.
               cursor_bytes buf (name node) = takeWhile (\<lambda>x. x \<noteq> CHR '' '') decl \<and>
               doc_at_body node =
                 \<lparr>len = length tail,
                  ptr = ptr (doc parser) + length (concat pre) + length lead + length decl + 2\<rparr> \<and>
               aws_xml_parser_parse fns buf parser f ud w =
                 (case fns f \<lparr>doc = doc_at_body node, cb_stack = [\<lparr>cb = f, user_data = ud\<rparr>]\<rparr>
                         node ud w of
                    None \<Rightarrow> None
                  | Some (b, parser3, w3) \<Rightarrow> Some (Inr (), parser3, w3))"
    if r: "rest = lead @ ''<'' @ decl @ ''>'' @ tail" and l1: "CHR ''<'' \<notin> set lead"
      and nd: "CHR ''>'' \<notin> set decl"
      and n1: "take 1 decl \<noteq> ''?''" and n2: "take 1 decl \<noteq> ''!''"
      and cap: "length (split_on CHR '' '' decl) \<le> split_scratch_size"
    for lead decl tail
  proof -
    have bs: "cursor_bytes buf (doc parser) = concat pre @ lead @ CHR ''<'' # decl @ CHR ''>'' # tail"
      using assms(4) r by simp
    from parse_first_element [OF assms(1,2,3) bs l1 nd n1 n2 cap, of fns f ud w]
    show ?thesis by blast
  qed
  have B: "aws_xml_parser_parse fns buf parser f ud w =
              Some (Inl AWS_ERROR_MALFORMED_INPUT_STRING, p1, w)"
    if "rest \<noteq> []" and "CHR ''<'' \<notin> set rest \<or> CHR ''>'' \<notin> set rest"
  proof -
    have "aws_xml_parser_parse_loop buf (parser\<lparr>cb_stack := []\<rparr>) =
            Some (Inl AWS_ERROR_MALFORMED_INPUT_STRING, p1)"
      using ap(1) parse_loop_malformed [OF ap(2) ap(3) that] by simp
    then show ?thesis by (simp add: aws_xml_parser_parse_def)
  qed
  from A B show ?thesis unfolding p1_def by blast
qed

theorem parse_skips_preamble_witness:
  "buffer_ok (''<?xml version='' @ [CHR 0x22] @ ''1.0'' @ [CHR 0x22] @ ''?><root/>'') \<and>
   preamble_decl (''<?xml version='' @ [CHR 0x22] @ ''1.0'' @ [CHR 0x22] @ ''?>'') \<and>
   aws_xml_parser_parse
       (\<lambda>f. h_record_name (''<?xml version='' @ [CHR 0x22] @ ''1.0'' @ [CHR 0x22] @ ''?><root/>''))
       (''<?xml version='' @ [CHR 0x22] @ ''1.0'' @ [CHR 0x22] @ ''?><root/>'')
       (aws_xml_parser_init \<lparr>len = 28, ptr = 0\<rparr>) 0 0 [] =
     Some (Inr (), \<lparr>doc = \<lparr>len = 0, ptr = 28\<rparr>, cb_stack = [\<lparr>cb = 0, user_data = 0\<rparr>]\<rparr>,
           [''root/''])"
proof -
  let ?pre = "''<?xml version='' @ [CHR 0x22] @ ''1.0'' @ [CHR 0x22] @ ''?>''"
  let ?buf = "''<?xml version='' @ [CHR 0x22] @ ''1.0'' @ [CHR 0x22] @ ''?><root/>''"
  let ?p = "aws_xml_parser_init \<lparr>len = 28, ptr = 0\<rparr>"
  let ?fns = "\<lambda>f::nat. h_record_name ?buf"
  have h1: "buffer_ok ?buf" by (simp add: buffer_ok_def SIZE_MAX_def)
  have h2: "cursor_in_bounds ?buf (doc ?p)"
    by (simp add: cursor_in_bounds_def aws_xml_parser_init_def)
  have pd: "preamble_decl ?pre" by (simp add: preamble_decl_def)
  then have h3: "\<forall>b \<in> set [?pre]. preamble_decl b" by simp
  have h4: "cursor_bytes ?buf (doc ?p) = concat [?pre] @ ''<root/>''"
    by (simp add: cursor_bytes_def aws_xml_parser_init_def)
  have c: "''<root/>'' = [] @ ''<'' @ ''root/'' @ ''>'' @ [] \<and> CHR ''<'' \<notin> set [] \<and>
           CHR ''>'' \<notin> set ''root/'' \<and>
           take 1 ''root/'' \<noteq> ''?'' \<and> take 1 ''root/'' \<noteq> ''!'' \<and>
           length (split_on CHR '' '' ''root/'') \<le> split_scratch_size"
    by (simp add: split_scratch_size_def)
  note inst = parse_skips_preamble [OF h1 h2 h3 h4, of ?fns 0 0 "[]", THEN conjunct1,
      rule_format, OF c]
  from inst obtain node where
    n1: "cursor_bytes ?buf (name node) = takeWhile (\<lambda>x. x \<noteq> CHR '' '') ''root/''"
    and n2: "doc_at_body node =
       \<lparr>len = length ([]::string),
        ptr = ptr (doc ?p) + length (concat [?pre]) + length ([]::string) + length ''root/'' + 2\<rparr>"
    and n3: "aws_xml_parser_parse ?fns ?buf ?p 0 0 [] =
       (case ?fns 0 \<lparr>doc = doc_at_body node, cb_stack = [\<lparr>cb = 0, user_data = 0\<rparr>]\<rparr> node 0 [] of
          None \<Rightarrow> None
        | Some (b, parser3, w3) \<Rightarrow> Some (Inr (), parser3, w3))"
    by (elim exE conjE)
  have d: "doc_at_body node = \<lparr>len = 0, ptr = 28\<rparr>"
    using n2 by (simp add: aws_xml_parser_init_def)
  have nm: "cursor_bytes ?buf (name node) = ''root/''" using n1 by simp
  have "aws_xml_parser_parse ?fns ?buf ?p 0 0 [] =
     Some (Inr (), \<lparr>doc = \<lparr>len = 0, ptr = 28\<rparr>, cb_stack = [\<lparr>cb = 0, user_data = 0\<rparr>]\<rparr>,
           [''root/''])"
    unfolding n3 d h_record_name_def nm by simp
  with h1 pd show ?thesis by (intro conjI)
qed

section \<open>The root handler's answer\<close>

lemma memchr_range:
  assumes "memchr buf p c n = Some i"
  shows "p \<le> i \<and> i < p + n"
proof -
  from assms obtain j where j: "index_of c (take n (drop p buf)) = Some j" and i: "i = p + j"
    by (auto simp: memchr_def)
  from index_of_Some [OF j] have "j < length (take n (drop p buf))" by simp
  then have "j < n" by simp
  with i show ?thesis by simp
qed

lemma advance_len_le: "len (aws_byte_cursor_advance c n) \<le> len c"
  by (simp add: aws_byte_cursor_advance_def)

lemma parse_loop_returns:
  "len (doc p) \<le> SIZE_MAX div 2 \<Longrightarrow> \<exists>r. aws_xml_parser_parse_loop buf p = Some r"
proof (induction "len (doc p)" arbitrary: p rule: less_induct)
  case less
  let ?c = "doc p"
  show ?case
  proof (cases "len ?c = 0")
    case True
    then show ?thesis by (simp add: parse_loop_empty)
  next
    case pos: False
    show ?thesis
    proof (cases "memchr buf (ptr ?c) CHR ''<'' (len ?c)")
      case None
      with pos show ?thesis by (subst aws_xml_parser_parse_loop.simps) simp
    next
      case (Some start)
      note s = this
      show ?thesis
      proof (cases "memchr buf (ptr ?c) CHR ''>'' (len ?c)")
        case None
        with pos s show ?thesis by (subst aws_xml_parser_parse_loop.simps) simp
      next
        case (Some location)
        note l = this
        from memchr_range [OF s] have sr: "ptr ?c \<le> start" "start < ptr ?c + len ?c" by auto
        from memchr_range [OF l] have lr: "ptr ?c \<le> location" "location < ptr ?c + len ?c" by auto
        have d1: "to_size_t (int start - int (ptr ?c)) = start - ptr ?c"
          using to_size_t_diff [of "ptr ?c" start] sr less.prems by (simp add: SIZE_MAX_def)
        let ?c1 = "aws_byte_cursor_advance ?c (start - ptr ?c)"
        have c1: "?c1 = \<lparr>len = len ?c - (start - ptr ?c), ptr = start\<rparr>"
          using advance_eq [of "start - ptr ?c" ?c] sr less.prems by simp
        let ?p1 = "p\<lparr>doc := ?c1\<rparr>"
        let ?adv = "to_size_t (int location - int (ptr ?c1) + 1)"
        let ?p2 = "?p1\<lparr>doc := aws_byte_cursor_advance ?c1 ?adv\<rparr>"
        have smaller: "len (doc ?p2) < len ?c"
        proof (cases "start \<le> location")
          case True
          have "location - start < SIZE_MAX" using lr sr less.prems by (simp add: SIZE_MAX_def)
          then have a: "?adv = location - start + 1"
            using to_size_t_diff1 [of start location] True by (simp add: c1)
          have "aws_byte_cursor_advance ?c1 (location - start + 1) =
                  \<lparr>len = len ?c1 - (location - start + 1), ptr = ptr ?c1 + (location - start + 1)\<rparr>"
            by (rule advance_eq) (use c1 lr sr True less.prems in auto)
          with a show ?thesis using c1 lr sr True by simp
        next
          case False
          then have "ptr ?c < start" using lr by simp
          then have "len ?c1 < len ?c" using c1 sr by simp
          moreover have "len (doc ?p2) \<le> len ?c1" by (simp add: advance_len_le)
          ultimately show ?thesis by simp
        qed
        have "len (doc ?p2) \<le> SIZE_MAX div 2" using smaller less.prems by simp
        from less.hyps [OF smaller this] obtain r where
          r: "aws_xml_parser_parse_loop buf ?p2 = Some r" by blast
        show ?thesis
          apply (subst aws_xml_parser_parse_loop.simps)
          using r
          apply (simp add: pos s l Let_def d1 split: option.split)
          done
      qed
    qed
  qed
qed


lemma next_sibling_split:
  "s_node_next_sibling fns buf p w =
     (case next_sibling_decode buf p of
        Inl (st, p') \<Rightarrow> Some (st, p', w)
      | Inr (p2, node, e) \<Rightarrow>
          (case fns (cb e) p2 node (user_data e) w of
             None \<Rightarrow> None
           | Some (b, p3, w3) \<Rightarrow> Some (Inr (), p3, w3)))"
proof (cases "memchr buf (ptr (doc p)) CHR ''<'' (len (doc p))")
  case None
  then show ?thesis by (simp add: s_node_next_sibling_def next_sibling_decode_def)
next
  case (Some next_location)
  note n = this
  let ?p1 = "p\<lparr>doc := aws_byte_cursor_advance (doc p)
                 (to_size_t (int next_location - int (ptr (doc p))))\<rparr>"
  show ?thesis
  proof (cases "memchr buf (ptr (doc ?p1)) CHR ''>'' (len (doc ?p1))")
    case None
    with n show ?thesis by (simp add: s_node_next_sibling_def next_sibling_decode_def Let_def)
  next
    case (Some end_location)
    note e = this
    let ?p2 = "?p1\<lparr>doc := aws_byte_cursor_advance (doc ?p1)
                 (to_size_t (int end_location - int (ptr (doc ?p1)) + 1))\<rparr>"
    let ?decl = "\<lparr>len = to_size_t (int (to_size_t (int end_location - int next_location)) - 1),
                  ptr = next_location + 1\<rparr>"
    let ?n0 = "\<lparr>name = ZERO_CURSOR, attributes = [], doc_at_body = doc ?p2\<rparr>"
    show ?thesis
    proof (cases "s_load_node_decl buf ?decl ?n0")
      case (Inl err)
      with n e show ?thesis by (simp add: s_node_next_sibling_def next_sibling_decode_def Let_def)
    next
      case (Inr node)
      show ?thesis
      proof (cases "cb_stack ?p2 = []")
        case True
        with n e Inr show ?thesis
          by (simp add: s_node_next_sibling_def next_sibling_decode_def Let_def)
      next
        case False
        with n e Inr show ?thesis
          by (simp add: s_node_next_sibling_def next_sibling_decode_def Let_def)
      qed
    qed
  qed
qed

lemma next_sibling_answer:
  "s_node_next_sibling (with_answer b fns) buf p w = s_node_next_sibling fns buf p w"
  by (auto simp: next_sibling_split [of _ buf p w] with_answer_def
      split: sum.split option.split prod.split)

lemma next_sibling_counting:
  assumes "s_node_next_sibling (counting fns) buf p (w, 0) = Some (st, p', (w', k))"
  shows "k \<le> 1 \<and> (k = 1 \<longrightarrow> st = Inr ())"
  using assms
  by (auto simp: next_sibling_split [of _ buf p] counting_def
      split: sum.splits option.splits prod.splits)

lemma next_sibling_counting_project:
  "map_option (\<lambda>(st, p', (w', k)). (st, p', w')) (s_node_next_sibling (counting fns) buf p (w, k0)) =
   s_node_next_sibling fns buf p w"
  by (auto simp: next_sibling_split [of _ buf p] counting_def
      split: sum.split option.split prod.split)

lemma next_sibling_returns:
  assumes "handlers_return fns"
  shows "\<exists>r. s_node_next_sibling fns buf p w = Some r"
proof -
  have "\<And>g q n u. fns g q n u w \<noteq> None"
    using assms unfolding handlers_return_def by blast
  then show ?thesis
    by (simp add: next_sibling_split [of fns buf p w] split: sum.split option.split prod.split)
       (metis option.distinct(1))
qed


lemma parse_answer:
  "aws_xml_parser_parse (with_answer b fns) buf parser f ud w =
   aws_xml_parser_parse fns buf parser f ud w"
  by (simp add: aws_xml_parser_parse_def next_sibling_answer split: option.split sum.split)

lemma parse_counting_project:
  "map_option (\<lambda>(st, p', (w', k)). (st, p', w'))
     (aws_xml_parser_parse (counting fns) buf parser f ud (w, 0)) =
   aws_xml_parser_parse fns buf parser f ud w"
  by (simp add: aws_xml_parser_parse_def next_sibling_counting_project
      split: option.split sum.split prod.split)

lemma counting_returns: "handlers_return fns \<Longrightarrow> handlers_return (counting fns)"
  by (auto simp: handlers_return_def counting_def)

text \<open>
  C10. Parse discards the root handler's boolean: with the same handlers answering true or
  answering false, parse gives the same status, parser and handler memory. A parse call on a
  document that \<open>aws_byte_cursor_advance\<close> can move over, with handlers that return, returns;
  it calls a handler through the callback table at most once, and when it has called one its
  status is success.
\<close>

theorem root_handler_answer_discarded:
  assumes "len (doc parser) \<le> SIZE_MAX div 2"
    and "handlers_return fns"
  shows "aws_xml_parser_parse (with_answer True fns) buf parser f ud w =
           aws_xml_parser_parse (with_answer False fns) buf parser f ud w \<and>
         (\<exists>st parser' w' k.
            aws_xml_parser_parse (counting fns) buf parser f ud (w, 0) = Some (st, parser', (w', k)) \<and>
            aws_xml_parser_parse fns buf parser f ud w = Some (st, parser', w') \<and>
            k \<le> 1 \<and> (k = 1 \<longrightarrow> st = Inr ()))"
proof -
  let ?p0 = "parser\<lparr>cb_stack := []\<rparr>"
  have same: "aws_xml_parser_parse (with_answer True fns) buf parser f ud w =
        aws_xml_parser_parse (with_answer False fns) buf parser f ud w"
    by (simp add: parse_answer)
  have "len (doc ?p0) \<le> SIZE_MAX div 2" using assms(1) by simp
  from parse_loop_returns [OF this] obtain st1 p1 where
    loop: "aws_xml_parser_parse_loop buf ?p0 = Some (st1, p1)" by fastforce
  have "\<exists>st parser' w' k.
          aws_xml_parser_parse (counting fns) buf parser f ud (w, 0) = Some (st, parser', (w', k)) \<and>
          k \<le> 1 \<and> (k = 1 \<longrightarrow> st = Inr ())"
  proof (cases st1)
    case (Inl e)
    with loop show ?thesis by (simp add: aws_xml_parser_parse_def)
  next
    case (Inr u)
    let ?p1 = "p1\<lparr>cb_stack := cb_stack p1 @ [\<lparr>cb = f, user_data = ud\<rparr>]\<rparr>"
    from next_sibling_returns [OF counting_returns [OF assms(2)], of buf ?p1 "(w, 0)"]
    obtain st p' w' k where r: "s_node_next_sibling (counting fns) buf ?p1 (w, 0) = Some (st, p', (w', k))"
      by (metis prod_cases4)
    from next_sibling_counting [OF r] have "k \<le> 1 \<and> (k = 1 \<longrightarrow> st = Inr ())" .
    moreover have "aws_xml_parser_parse (counting fns) buf parser f ud (w, 0) = Some (st, p', (w', k))"
      using loop Inr r by (simp add: aws_xml_parser_parse_def)
    ultimately show ?thesis by blast
  qed
  then obtain st parser' w' k where
    c: "aws_xml_parser_parse (counting fns) buf parser f ud (w, 0) = Some (st, parser', (w', k))"
    and k: "k \<le> 1 \<and> (k = 1 \<longrightarrow> st = Inr ())" by blast
  have "aws_xml_parser_parse fns buf parser f ud w = Some (st, parser', w')"
    using parse_counting_project [of fns buf parser f ud w] c by simp
  with same c k show ?thesis by blast
qed

theorem root_handler_answer_discarded_witness:
  "len (doc (aws_xml_parser_init \<lparr>len = 7, ptr = 0\<rparr>)) \<le> SIZE_MAX div 2 \<and>
   handlers_return (\<lambda>f. h_record_name ''<a></a>'') \<and>
   aws_xml_parser_parse (with_answer False (\<lambda>f. h_record_name ''<a></a>'')) ''<a></a>''
       (aws_xml_parser_init \<lparr>len = 7, ptr = 0\<rparr>) 0 0 [] =
     Some (Inr (), \<lparr>doc = \<lparr>len = 4, ptr = 3\<rparr>, cb_stack = [\<lparr>cb = 0, user_data = 0\<rparr>]\<rparr>, [''a''])"
proof -
  let ?fns = "\<lambda>f::nat. h_record_name ''<a></a>''"
  let ?p = "aws_xml_parser_init \<lparr>len = 7, ptr = 0\<rparr>"
  have h1: "len (doc ?p) \<le> SIZE_MAX div 2"
    by (simp add: aws_xml_parser_init_def SIZE_MAX_def)
  have h2: "handlers_return ?fns"
    by (simp add: handlers_return_def h_record_name_def)
  have ev: "aws_xml_parser_parse (with_answer True ?fns) ''<a></a>'' ?p 0 0 [] =
     Some (Inr (), \<lparr>doc = \<lparr>len = 4, ptr = 3\<rparr>, cb_stack = [\<lparr>cb = 0, user_data = 0\<rparr>]\<rparr>, [''a''])"
    by (simp add: aws_xml_parser_parse_def aws_xml_parser_init_def with_answer_def
        aws_xml_parser_parse_loop.simps s_node_next_sibling_def h_record_name_def
        memchr_def read_byte_def to_size_t_def SIZE_MAX_def aws_byte_cursor_advance_def
        s_load_node_decl_def aws_byte_cursor_split_on_char_def cursor_in_bounds_def
        cursor_bytes_def split_scratch_size_def cursor_at_def ZERO_CURSOR_def Let_def)
  from root_handler_answer_discarded [OF h1 h2, of "''<a></a>''" 0 0 "[]", THEN conjunct1]
  have eq: "aws_xml_parser_parse (with_answer False ?fns) ''<a></a>'' ?p 0 0 [] =
        aws_xml_parser_parse (with_answer True ?fns) ''<a></a>'' ?p 0 0 []"
    by (rule sym)
  from eq ev have "aws_xml_parser_parse (with_answer False ?fns) ''<a></a>'' ?p 0 0 [] =
     Some (Inr (), \<lparr>doc = \<lparr>len = 4, ptr = 3\<rparr>, cb_stack = [\<lparr>cb = 0, user_data = 0\<rparr>]\<rparr>, [''a''])"
    by (rule trans)
  with h1 h2 show ?thesis by (intro conjI)
qed

section \<open>Bodies\<close>

lemmas run_eval =
  aws_xml_parser_parse_def aws_xml_parser_init_def aws_xml_parser_parse_loop.simps
  s_node_next_sibling_def aws_xml_node_traverse_def aws_xml_node_traverse_loop.simps
  h_record_name_def h_as_body_def h_traverse_def
  aws_xml_node_as_body_def s_advance_to_closing_tag_def aws_byte_cursor_find_exact_def
  aws_byte_buf_append_def memchr_def read_byte_def to_size_t_def SIZE_MAX_def
  aws_byte_cursor_advance_def

lemma node_as_body_first_match:
  assumes ok: "buffer_ok buf"
    and nb: "cursor_in_bounds buf (name node)"
    and db: "cursor_in_bounds buf (doc_at_body node)"
    and r: "aws_xml_node_as_body buf parser node = (Inr body, parser')"
  shows "first_match (''</'' @ cursor_bytes buf (name node) @ ''>'')
           (cursor_bytes buf (doc_at_body node)) = Some (len body) \<and>
         ptr body = ptr (doc_at_body node) \<and>
         len body + (len (name node) + 3) \<le> len (doc_at_body node) \<and>
         parser' = parser\<lparr>doc := aws_byte_cursor_advance (doc parser)
                                    (len body + (len (name node) + 3))\<rparr>"
proof -
  note cc = closing_tag_cases [OF ok nb db, of parser]
  let ?to_find = "''</'' @ cursor_bytes buf (name node) @ ''>''"
  let ?bytes = "cursor_bytes buf (doc_at_body node)"
  have small: "\<not> 256 < len (name node)"
    using r cc by (auto simp: aws_xml_node_as_body_def)
  obtain i where i: "first_match ?to_find ?bytes = Some i"
    using r cc small by (cases "first_match ?to_find ?bytes") (auto simp: aws_xml_node_as_body_def)
  have b: "body = \<lparr>len = i, ptr = ptr (doc_at_body node)\<rparr>"
    and p: "parser' = parser\<lparr>doc := aws_byte_cursor_advance (doc parser) (i + (len (name node) + 3))\<rparr>"
    using r cc small i by (auto simp: aws_xml_node_as_body_def)
  have ne: "?to_find \<noteq> []" by simp
  from first_match_bound [OF i ne] have "i + (len (name node) + 3) \<le> len (doc_at_body node)"
    using length_cursor_bytes [OF nb] length_cursor_bytes [OF db] by simp
  with i b p show ?thesis by simp
qed


lemma single_element_body:
  assumes ok: "buffer_ok buf"
    and buf: "buf = ''<'' @ nm @ ''>'' @ text @ ''</'' @ nm @ ''>''"
    and l: "length nm \<le> 256"
    and n1: "CHR ''>'' \<notin> set nm" and n2: "CHR '' '' \<notin> set nm"
    and n3: "take 1 nm \<noteq> ''?''" and n4: "take 1 nm \<noteq> ''!''"
    and t: "CHR ''<'' \<notin> set text"
  shows "aws_xml_parser_parse (\<lambda>f. h_as_body buf) buf
           (aws_xml_parser_init \<lparr>len = length buf, ptr = 0\<rparr>) f ud [] =
         Some (Inr (), \<lparr>doc = \<lparr>len = 0, ptr = length buf\<rparr>,
                        cb_stack = [\<lparr>cb = f, user_data = ud\<rparr>]\<rparr>, [Inr text])"
proof -
  let ?p = "aws_xml_parser_init \<lparr>len = length buf, ptr = 0\<rparr>"
  let ?tail = "text @ ''</'' @ nm @ ''>''"
  let ?e = "\<lparr>cb = f, user_data = ud\<rparr>"
  let ?fns = "\<lambda>f::nat. h_as_body buf"
  have ib: "cursor_in_bounds buf (doc ?p)"
    by (simp add: cursor_in_bounds_def aws_xml_parser_init_def)
  have pre: "\<forall>b \<in> set ([]::string list). preamble_decl b" by simp
  have bs: "cursor_bytes buf (doc ?p) = concat [] @ [] @ CHR ''<'' # nm @ CHR ''>'' # ?tail"
    by (simp add: cursor_bytes_def aws_xml_parser_init_def buf)
  have l0: "CHR ''<'' \<notin> set []" by simp
  have cap: "length (split_on CHR '' '' nm) \<le> split_scratch_size"
    using n2 by (simp add: split_on_no_delim split_scratch_size_def)
  have tw: "takeWhile (\<lambda>x. x \<noteq> CHR '' '') nm = nm" using n2 by auto
  from parse_first_element [OF ok ib pre bs l0 n1 n3 n4 cap, of ?fns f ud "[]"]
  obtain node where
    nc: "name node = \<lparr>len = length nm, ptr = 1\<rparr>"
    and nb: "cursor_in_bounds buf (name node)"
    and nm: "cursor_bytes buf (name node) = nm"
    and d: "doc_at_body node = \<lparr>len = length ?tail, ptr = length nm + 2\<rparr>"
    and db: "cursor_in_bounds buf (doc_at_body node)"
    and dbs: "cursor_bytes buf (doc_at_body node) = ?tail"
    and run: "aws_xml_parser_parse ?fns buf ?p f ud [] =
       (case h_as_body buf \<lparr>doc = doc_at_body node, cb_stack = [?e]\<rparr> node ud [] of
          None \<Rightarrow> None
        | Some (b, parser3, w3) \<Rightarrow> Some (Inr (), parser3, w3))"
    by (auto simp: tw aws_xml_parser_init_def)
  let ?p2 = "\<lparr>doc = doc_at_body node, cb_stack = [?e]\<rparr>"
  have fm: "first_match (''</'' @ cursor_bytes buf (name node) @ ''>'')
              (cursor_bytes buf (doc_at_body node)) = Some (length text)"
    using first_match_append [OF t, of "''/'' @ nm @ ''>''" "[]"] by (simp add: nm dbs)
  have ln: "len (name node) = length nm" using nc by simp
  have small: "\<not> 256 < len (name node)" using l ln by simp
  have dl: "len (doc_at_body node) \<le> SIZE_MAX div 2" using ok db by (rule buffer_ok_len)
  have adv: "aws_byte_cursor_advance (doc_at_body node) (length text + (length nm + 3)) =
             \<lparr>len = 0, ptr = length buf\<rparr>"
    using advance_eq [of "length text + (length nm + 3)" "doc_at_body node"] dl d
    by (simp add: buf)
  have cc: "s_advance_to_closing_tag buf ?p2 node =
        (Inr \<lparr>len = length text, ptr = ptr (doc_at_body node)\<rparr>,
         \<lparr>doc = \<lparr>len = 0, ptr = length buf\<rparr>, cb_stack = [?e]\<rparr>)"
    using closing_tag_cases [OF ok nb db, of ?p2] small fm adv by (simp add: ln)
  have "cursor_bytes buf \<lparr>len = length text, ptr = ptr (doc_at_body node)\<rparr> =
          take (length text) (cursor_bytes buf (doc_at_body node))"
    by (rule cursor_bytes_take) (simp add: d)
  then have bb: "cursor_bytes buf \<lparr>len = length text, ptr = ptr (doc_at_body node)\<rparr> = text"
    by (simp add: dbs)
  show ?thesis
    unfolding run h_as_body_def aws_xml_node_as_body_def cc by (simp add: bb)
qed

lemma nested_same_name_body:
  "aws_xml_parser_parse (\<lambda>f. h_as_body ''<a><a>inner</a></a>'') ''<a><a>inner</a></a>''
       (aws_xml_parser_init \<lparr>len = 19, ptr = 0\<rparr>) 0 0 [] =
     Some (Inr (), \<lparr>doc = \<lparr>len = 4, ptr = 15\<rparr>, cb_stack = [\<lparr>cb = 0, user_data = 0\<rparr>]\<rparr>,
           [Inr ''<a>inner''])"
  by (simp add: run_eval decl_eval)

text \<open>
  C3. The closing-tag match of \<open>node_as_body\<close> is an exact, forward, first-occurrence search
  for \<open></name>\<close>: the body starts where the search region starts and ends where the first
  match starts, no earlier position matches, and the cursor advances by the body and the
  closing tag. For every single-element document \<open><a>text</a>\<close> the body handed back is
  exactly \<open>text\<close> and the cursor ends past the closing tag; and in \<open><a><a>inner</a></a>\<close> the
  outer element closes on the first \<open></a>\<close>, the inner one.
\<close>

theorem node_as_body_first_occurrence:
  assumes "buffer_ok buf"
  shows "(\<forall>parser node body parser'.
            cursor_in_bounds buf (name node) \<and> cursor_in_bounds buf (doc_at_body node) \<and>
            aws_xml_node_as_body buf parser node = (Inr body, parser') \<longrightarrow>
            ptr body = ptr (doc_at_body node) \<and>
            cursor_bytes buf body = take (len body) (cursor_bytes buf (doc_at_body node)) \<and>
            take (len (name node) + 3) (drop (len body) (cursor_bytes buf (doc_at_body node))) =
              ''</'' @ cursor_bytes buf (name node) @ ''>'' \<and>
            (\<forall>j<len body.
               take (len (name node) + 3) (drop j (cursor_bytes buf (doc_at_body node))) \<noteq>
                 ''</'' @ cursor_bytes buf (name node) @ ''>'') \<and>
            doc parser' =
              aws_byte_cursor_advance (doc parser) (len body + (len (name node) + 3))) \<and>
         (\<forall>nm text.
            buf = ''<'' @ nm @ ''>'' @ text @ ''</'' @ nm @ ''>'' \<and> length nm \<le> 256 \<and>
            CHR ''>'' \<notin> set nm \<and> CHR '' '' \<notin> set nm \<and>
            take 1 nm \<noteq> ''?'' \<and> take 1 nm \<noteq> ''!'' \<and> CHR ''<'' \<notin> set text \<longrightarrow>
            aws_xml_parser_parse (\<lambda>f. h_as_body buf) buf
                (aws_xml_parser_init \<lparr>len = length buf, ptr = 0\<rparr>) f ud [] =
              Some (Inr (), \<lparr>doc = \<lparr>len = 0, ptr = length buf\<rparr>,
                             cb_stack = [\<lparr>cb = f, user_data = ud\<rparr>]\<rparr>, [Inr text])) \<and>
         aws_xml_parser_parse (\<lambda>f. h_as_body ''<a><a>inner</a></a>'') ''<a><a>inner</a></a>''
             (aws_xml_parser_init \<lparr>len = 19, ptr = 0\<rparr>) 0 0 [] =
           Some (Inr (), \<lparr>doc = \<lparr>len = 4, ptr = 15\<rparr>, cb_stack = [\<lparr>cb = 0, user_data = 0\<rparr>]\<rparr>,
                 [Inr ''<a>inner''])"
proof (intro conjI allI impI)
  fix parser node body parser'
  assume a: "cursor_in_bounds buf (name node) \<and> cursor_in_bounds buf (doc_at_body node) \<and>
            aws_xml_node_as_body buf parser node = (Inr body, parser')"
  then have nb: "cursor_in_bounds buf (name node)"
    and db: "cursor_in_bounds buf (doc_at_body node)"
    and r: "aws_xml_node_as_body buf parser node = (Inr body, parser')" by simp_all
  let ?to_find = "''</'' @ cursor_bytes buf (name node) @ ''>''"
  let ?bytes = "cursor_bytes buf (doc_at_body node)"
  from node_as_body_first_match [OF assms nb db r]
  have fm: "first_match ?to_find ?bytes = Some (len body)"
    and pb: "ptr body = ptr (doc_at_body node)"
    and le: "len body + (len (name node) + 3) \<le> len (doc_at_body node)"
    and pp: "parser' = parser\<lparr>doc := aws_byte_cursor_advance (doc parser)
                                    (len body + (len (name node) + 3))\<rparr>" by simp_all
  have lf: "length ?to_find = len (name node) + 3"
    using length_cursor_bytes [OF nb] by simp
  note fs = first_match_Some [OF fm, unfolded lf]
  show "ptr body = ptr (doc_at_body node)" by (rule pb)
  have "cursor_bytes buf \<lparr>len = len body, ptr = ptr (doc_at_body node)\<rparr> =
          take (len body) ?bytes"
    by (rule cursor_bytes_take) (use le in simp)
  moreover have "body = \<lparr>len = len body, ptr = ptr (doc_at_body node)\<rparr>"
    using pb by (cases body) simp
  ultimately show "cursor_bytes buf body = take (len body) ?bytes" by simp
  show "take (len (name node) + 3) (drop (len body) ?bytes) = ?to_find"
    using fs by simp
  show "\<And>j. j < len body \<Longrightarrow> take (len (name node) + 3) (drop j ?bytes) \<noteq> ?to_find"
    using fs by simp
  show "doc parser' = aws_byte_cursor_advance (doc parser) (len body + (len (name node) + 3))"
    using pp by simp
next
  fix nm tx
  assume "buf = ''<'' @ nm @ ''>'' @ tx @ ''</'' @ nm @ ''>'' \<and> length nm \<le> 256 \<and>
            CHR ''>'' \<notin> set nm \<and> CHR '' '' \<notin> set nm \<and>
            take 1 nm \<noteq> ''?'' \<and> take 1 nm \<noteq> ''!'' \<and> CHR ''<'' \<notin> set tx"
  then show "aws_xml_parser_parse (\<lambda>f. h_as_body buf) buf
                (aws_xml_parser_init \<lparr>len = length buf, ptr = 0\<rparr>) f ud [] =
              Some (Inr (), \<lparr>doc = \<lparr>len = 0, ptr = length buf\<rparr>,
                             cb_stack = [\<lparr>cb = f, user_data = ud\<rparr>]\<rparr>, [Inr tx])"
    using single_element_body [OF assms] by blast
next
  show "aws_xml_parser_parse (\<lambda>f. h_as_body ''<a><a>inner</a></a>'') ''<a><a>inner</a></a>''
             (aws_xml_parser_init \<lparr>len = 19, ptr = 0\<rparr>) 0 0 [] =
           Some (Inr (), \<lparr>doc = \<lparr>len = 4, ptr = 15\<rparr>, cb_stack = [\<lparr>cb = 0, user_data = 0\<rparr>]\<rparr>,
                 [Inr ''<a>inner''])"
    by (rule nested_same_name_body)
qed

theorem node_as_body_first_occurrence_witness:
  "buffer_ok ''<a>text</a>'' \<and>
   aws_xml_parser_parse (\<lambda>f. h_as_body ''<a>text</a>'') ''<a>text</a>''
       (aws_xml_parser_init \<lparr>len = 11, ptr = 0\<rparr>) 0 0 [] =
     Some (Inr (), \<lparr>doc = \<lparr>len = 0, ptr = 11\<rparr>, cb_stack = [\<lparr>cb = 0, user_data = 0\<rparr>]\<rparr>,
           [Inr ''text''])"
proof -
  let ?buf = "''<a>text</a>''"
  have h: "buffer_ok ?buf" by (simp add: buffer_ok_def SIZE_MAX_def)
  have c: "?buf = ''<'' @ ''a'' @ ''>'' @ ''text'' @ ''</'' @ ''a'' @ ''>'' \<and> length ''a'' \<le> 256 \<and>
            CHR ''>'' \<notin> set ''a'' \<and> CHR '' '' \<notin> set ''a'' \<and>
            take 1 ''a'' \<noteq> ''?'' \<and> take 1 ''a'' \<noteq> ''!'' \<and> CHR ''<'' \<notin> set ''text''"
    by simp
  note inst = node_as_body_first_occurrence [OF h, THEN conjunct2, THEN conjunct1, rule_format,
      OF c, of 0 0]
  have l: "length ?buf = 11" by simp
  from inst have "aws_xml_parser_parse (\<lambda>f. h_as_body ?buf) ?buf
       (aws_xml_parser_init \<lparr>len = 11, ptr = 0\<rparr>) 0 0 [] =
     Some (Inr (), \<lparr>doc = \<lparr>len = 0, ptr = 11\<rparr>, cb_stack = [\<lparr>cb = 0, user_data = 0\<rparr>]\<rparr>,
           [Inr ''text''])"
    unfolding l .
  with h show ?thesis by (intro conjI)
qed

section \<open>Traverse\<close>











text \<open>A \<open>>\<close> in the text before the closing tag: traverse on \<open>p\<close> in \<open><p>a>b</p>\<close> stops at
  \<open></p>\<close> with success and leaves the cursor at \<open>b</p>\<close>.\<close>

lemma traverse_stray_bracket_example:
  "aws_xml_node_traverse (\<lambda>f. h_record_name ''<p>a>b</p>'') ''<p>a>b</p>''
       \<lparr>doc = \<lparr>len = 7, ptr = 3\<rparr>, cb_stack = []\<rparr>
       \<lparr>name = \<lparr>len = 1, ptr = 1\<rparr>, attributes = [], doc_at_body = \<lparr>len = 7, ptr = 3\<rparr>\<rparr> 0 0 [] =
     Some (Inr (), \<lparr>doc = \<lparr>len = 5, ptr = 5\<rparr>, cb_stack = []\<rparr>, []) \<and>
   cursor_bytes ''<p>a>b</p>'' \<lparr>len = 5, ptr = 5\<rparr> = ''b</p>''"
  by (simp add: run_eval decl_eval cursor_bytes_def)

text \<open>
  C1 at its failing input. In \<open><p><a>x</a><b>y</b></p>\<close>, traverse on \<open>p\<close> with a handler
  that returns true: after the handler returns for \<open>a\<close> (cursor at \<open>x</a>...\<close>), the matcher is
  applied with the parent \<open>p\<close>, not with \<open>a\<close>; it finds \<open></p>\<close> 16 bytes into the parent's
  body and leaves the cursor where it was, whereas with the child it would leave the cursor
  at \<open><b>\<close>. The loop then takes \<open></a>\<close> for the parent's closing tag and stops.
\<close>

theorem traverse_matches_parent_closing_tag:
  "s_advance_to_closing_tag ''<p><a>x</a><b>y</b></p>''
       \<lparr>doc = \<lparr>len = 17, ptr = 6\<rparr>, cb_stack = [\<lparr>cb = 0, user_data = 0\<rparr>]\<rparr>
       \<lparr>name = \<lparr>len = 1, ptr = 1\<rparr>, attributes = [], doc_at_body = \<lparr>len = 20, ptr = 3\<rparr>\<rparr> =
     (Inr \<lparr>len = 16, ptr = 3\<rparr>,
      \<lparr>doc = \<lparr>len = 17, ptr = 6\<rparr>, cb_stack = [\<lparr>cb = 0, user_data = 0\<rparr>]\<rparr>) \<and>
   s_advance_to_closing_tag ''<p><a>x</a><b>y</b></p>''
       \<lparr>doc = \<lparr>len = 17, ptr = 6\<rparr>, cb_stack = [\<lparr>cb = 0, user_data = 0\<rparr>]\<rparr>
       \<lparr>name = \<lparr>len = 1, ptr = 4\<rparr>, attributes = [], doc_at_body = \<lparr>len = 17, ptr = 6\<rparr>\<rparr> =
     (Inr \<lparr>len = 1, ptr = 6\<rparr>,
      \<lparr>doc = \<lparr>len = 12, ptr = 11\<rparr>, cb_stack = [\<lparr>cb = 0, user_data = 0\<rparr>]\<rparr>) \<and>
   aws_xml_node_traverse (\<lambda>f. h_record_name ''<p><a>x</a><b>y</b></p>'')
       ''<p><a>x</a><b>y</b></p>''
       \<lparr>doc = \<lparr>len = 20, ptr = 3\<rparr>, cb_stack = []\<rparr>
       \<lparr>name = \<lparr>len = 1, ptr = 1\<rparr>, attributes = [], doc_at_body = \<lparr>len = 20, ptr = 3\<rparr>\<rparr>
       0 0 [] =
     Some (Inr (), \<lparr>doc = \<lparr>len = 12, ptr = 11\<rparr>, cb_stack = []\<rparr>, [''a''])"
  by (simp add: run_eval decl_eval)

text \<open>
  C2 at its failing input. The document \<open><p><a>x</a><b>y</b></p>\<close> has two well-formed
  siblings under \<open>p\<close>; parsing it with a root handler that traverses \<open>p\<close> with a handler that
  always returns true invokes that handler once, for \<open>a\<close>, and never for \<open>b\<close>.
\<close>

theorem traverse_visits_one_of_two_siblings:
  "aws_xml_parser_parse
       (\<lambda>f. h_traverse ''<p><a>x</a><b>y</b></p>'' (h_record_name ''<p><a>x</a><b>y</b></p>''))
       ''<p><a>x</a><b>y</b></p>'' (aws_xml_parser_init \<lparr>len = 23, ptr = 0\<rparr>) 0 0 [] =
     Some (Inr (), \<lparr>doc = \<lparr>len = 12, ptr = 11\<rparr>, cb_stack = [\<lparr>cb = 0, user_data = 0\<rparr>]\<rparr>,
           [''a''])"
  by (simp add: run_eval decl_eval)

end
